theory Spec2Isabelle
  imports Main "HOL-Library.AList" "HOL-Library.Multiset"
begin

section \<open>Data model of the crawler (src/index.ts)\<close>

text \<open>
  JavaScript numbers are modelled as \<open>int\<close> (the crawler only ever builds integers:
  priorities, depths, millisecond clock readings, HTTP status codes).  A JavaScript
  \<open>Map\<close> is an association list in insertion order: \<open>map_of\<close> is \<open>get\<close>,
  \<open>AList.update\<close> is \<open>set\<close> (it overwrites in place or appends a new key at the end).
  A JavaScript \<open>Set\<close> is a list in insertion order, and \<open>add\<close> leaves it alone when
  the element is already a member.
\<close>

record URLInfo =
  url :: string
  priority :: int
  depth :: int
  host :: string
  timestamp :: int

text \<open>The fields of \<open>CrawlResult\<close>; its \<open>url\<close> field is called \<open>res_url\<close> here.\<close>

record CrawlResult =
  res_url :: string
  content :: string
  links :: "string list"
  statusCode :: int
  contentType :: string
  hash :: string

record CrawlConfig =
  maxPages :: int
  maxDepth :: int
  cfg_politenessDelay :: int
  timeout :: int
  userAgent :: string
  respectRobots :: bool

definition set_add :: "'a \<Rightarrow> 'a list \<Rightarrow> 'a list" where
  "set_add x xs = (if x \<in> set xs then xs else xs @ [x])"

subsection \<open>ContentStorage\<close>

record ContentStorage =
  storage :: "(string \<times> CrawlResult) list"
  seenHashes :: "string list"

definition ContentStorage_new :: ContentStorage where
  "ContentStorage_new = \<lparr>storage = [], seenHashes = []\<rparr>"

definition isContentSeen :: "string \<Rightarrow> ContentStorage \<Rightarrow> bool" where
  "isContentSeen h cs = (h \<in> set (seenHashes cs))"

definition store :: "CrawlResult \<Rightarrow> ContentStorage \<Rightarrow> ContentStorage" where
  "store result cs =
     \<lparr>storage = AList.update (res_url result) result (storage cs),
      seenHashes = set_add (hash result) (seenHashes cs)\<rparr>"

definition get :: "string \<Rightarrow> ContentStorage \<Rightarrow> CrawlResult option" where
  "get u cs = map_of (storage cs) u"

definition getAllResults :: "ContentStorage \<Rightarrow> CrawlResult list" where
  "getAllResults cs = map snd (storage cs)"

subsection \<open>URLStorage\<close>

record URLStorage =
  visitedUrls :: "string list"

definition URLStorage_new :: URLStorage where
  "URLStorage_new = \<lparr>visitedUrls = []\<rparr>"

definition isURLSeen :: "string \<Rightarrow> URLStorage \<Rightarrow> bool" where
  "isURLSeen u us = (u \<in> set (visitedUrls us))"

definition markAsVisited :: "string \<Rightarrow> URLStorage \<Rightarrow> URLStorage" where
  "markAsVisited u us = \<lparr>visitedUrls = set_add u (visitedUrls us)\<rparr>"

definition getVisitedCount :: "URLStorage \<Rightarrow> nat" where
  "getVisitedCount us = length (visitedUrls us)"

subsection \<open>PriorityQueue\<close>

text \<open>The \<open>items\<close> array: pairs of an item and its priority.\<close>

type_synonym 'a PriorityQueue = "('a \<times> int) list"

text \<open>
  The loop of \<open>enqueue\<close>: the new element is spliced in before the first element of
  strictly lower priority, and pushed at the end when there is none.
\<close>

fun splice_in :: "'a \<times> int \<Rightarrow> 'a PriorityQueue \<Rightarrow> 'a PriorityQueue" where
  "splice_in queueElement [] = [queueElement]"
| "splice_in queueElement (x # xs) =
     (if snd queueElement > snd x then queueElement # x # xs
      else x # splice_in queueElement xs)"

definition enqueue :: "'a \<Rightarrow> int \<Rightarrow> 'a PriorityQueue \<Rightarrow> 'a PriorityQueue" where
  "enqueue item p items = splice_in (item, p) items"

text \<open>\<open>shift()?.item\<close>: the front item, or \<open>undefined\<close> (\<open>None\<close>) on an empty queue.\<close>

definition dequeue :: "'a PriorityQueue \<Rightarrow> 'a option \<times> 'a PriorityQueue" where
  "dequeue items = (case items of [] \<Rightarrow> (None, []) | x # xs \<Rightarrow> (Some (fst x), xs))"

definition pq_isEmpty :: "'a PriorityQueue \<Rightarrow> bool" where
  "pq_isEmpty items = (length items = 0)"

definition pq_size :: "'a PriorityQueue \<Rightarrow> nat" where
  "pq_size items = length items"

subsection \<open>URLFrontier\<close>

text \<open>
  The field \<open>hostToQueue\<close> of the class is never read or written and is left out.
  An operation returns \<open>None\<close> where the source would raise a \<open>TypeError\<close> by
  using the \<open>undefined\<close> that a non-null assertion (\<open>!\<close>) let through.
\<close>

record URLFrontier =
  frontQueues :: "(int \<times> URLInfo PriorityQueue) list"
  backQueues :: "(string \<times> URLInfo list) list"
  lastAccessTime :: "(string \<times> int) list"
  politenessDelay :: int

definition URLFrontier_new :: "int \<Rightarrow> URLFrontier" where
  "URLFrontier_new d =
     \<lparr>frontQueues = foldl (\<lambda>m i. AList.update i [] m) [] [0, 1, 2, 3, 4],
      backQueues = [],
      lastAccessTime = [],
      politenessDelay = d\<rparr>"

definition addURL :: "URLInfo \<Rightarrow> URLFrontier \<Rightarrow> URLFrontier option" where
  "addURL urlInfo f =
     (case map_of (frontQueues f) (priority urlInfo) of
        Some queue \<Rightarrow>
          Some (f\<lparr>frontQueues :=
            AList.update (priority urlInfo) (enqueue urlInfo (priority urlInfo) queue)
              (frontQueues f)\<rparr>)
      | None \<Rightarrow>
          (case map_of (frontQueues f) 0 of
             Some queue \<Rightarrow>
               Some (f\<lparr>frontQueues :=
                 AList.update 0 (enqueue urlInfo (priority urlInfo) queue) (frontQueues f)\<rparr>)
           | None \<Rightarrow> None))"

text \<open>\<open>this.lastAccessTime.get(host) || 0\<close>: a missing entry and a stored 0 both read 0.\<close>

definition lastAccess_of :: "(string \<times> int) list \<Rightarrow> string \<Rightarrow> int" where
  "lastAccess_of la h = (case map_of la h of None \<Rightarrow> 0 | Some t \<Rightarrow> if t = 0 then 0 else t)"

text \<open>
  The loop of \<open>getFromBackQueue\<close> over the entries of \<open>backQueues\<close>: the result is the
  URL shifted off the first ready queue, its host, and the entries after the shift.
\<close>

fun scan_backQueues ::
  "int \<Rightarrow> int \<Rightarrow> (string \<times> int) list \<Rightarrow> (string \<times> URLInfo list) list
     \<Rightarrow> (URLInfo \<times> string \<times> (string \<times> URLInfo list) list) option" where
  "scan_backQueues now d la [] = None"
| "scan_backQueues now d la ((h, queue) # rest) =
     (case queue of
        [] \<Rightarrow>
          (case scan_backQueues now d la rest of
             None \<Rightarrow> None
           | Some (u, h', rest') \<Rightarrow> Some (u, h', (h, queue) # rest'))
      | urlInfo # queue' \<Rightarrow>
          if now - lastAccess_of la h \<ge> d then Some (urlInfo, h, (h, queue') # rest)
          else
            (case scan_backQueues now d la rest of
               None \<Rightarrow> None
             | Some (u, h', rest') \<Rightarrow> Some (u, h', (h, queue) # rest')))"

definition getFromBackQueue :: "int \<Rightarrow> URLFrontier \<Rightarrow> URLInfo option \<times> URLFrontier" where
  "getFromBackQueue now f =
     (case scan_backQueues now (politenessDelay f) (lastAccessTime f) (backQueues f) of
        None \<Rightarrow> (None, f)
      | Some (urlInfo, h, bq') \<Rightarrow>
          (Some urlInfo,
           f\<lparr>backQueues := bq', lastAccessTime := AList.update h now (lastAccessTime f)\<rparr>))"

text \<open>Moving a URL to the back queue of its host, which is created when missing.\<close>

definition move_to_backQueue ::
  "URLInfo \<Rightarrow> (string \<times> URLInfo list) list \<Rightarrow> (string \<times> URLInfo list) list option" where
  "move_to_backQueue urlInfo bq =
     (let bq1 = (if map_of bq (host urlInfo) = None then AList.update (host urlInfo) [] bq
                 else bq)
      in case map_of bq1 (host urlInfo) of
           None \<Rightarrow> None
         | Some queue \<Rightarrow> Some (AList.update (host urlInfo) (queue @ [urlInfo]) bq1))"

text \<open>The loop of \<open>getNextURL\<close> over the priorities 4 down to 0; \<open>now\<close> is what
  \<open>Date.now()\<close> returns in \<open>getFromBackQueue\<close>.\<close>

fun getNextURL_from ::
  "int list \<Rightarrow> int \<Rightarrow> URLFrontier \<Rightarrow> (URLInfo option \<times> URLFrontier) option" where
  "getNextURL_from [] now f = Some (getFromBackQueue now f)"
| "getNextURL_from (p # ps) now f =
     (case map_of (frontQueues f) p of
        None \<Rightarrow> None
      | Some queue \<Rightarrow>
          if \<not> pq_isEmpty queue then
            (case dequeue queue of
               (None, _) \<Rightarrow> None
             | (Some urlInfo, queue') \<Rightarrow>
                 (case move_to_backQueue urlInfo (backQueues f) of
                    None \<Rightarrow> None
                  | Some bq' \<Rightarrow>
                      Some (getFromBackQueue now
                        (f\<lparr>frontQueues := AList.update p queue' (frontQueues f),
                           backQueues := bq'\<rparr>))))
          else getNextURL_from ps now f)"

definition getNextURL :: "int \<Rightarrow> URLFrontier \<Rightarrow> (URLInfo option \<times> URLFrontier) option" where
  "getNextURL now f = getNextURL_from [4, 3, 2, 1, 0] now f"

definition isEmpty :: "URLFrontier \<Rightarrow> bool" where
  "isEmpty f =
     (list_all (\<lambda>(p, queue). pq_isEmpty queue) (frontQueues f) \<and>
      list_all (\<lambda>(h, queue). length queue = 0) (backQueues f))"

section \<open>The crawler: filter, downloader and crawl loop\<close>

subsection \<open>Library functions and the outside world\<close>

text \<open>
  The parts of a parsed \<open>URL\<close> object that the crawler reads.
\<close>

record URL =
  protocol :: string
  hostname :: string
  pathname :: string

text \<open>
  Library code that is not part of the repository is a parameter: the URL parser
  (\<open>new URL(s)\<close>, \<open>None\<close> where it throws), the SHA-256 hex digest, and the link
  extraction of \<open>ContentParser.parseHTML\<close> (cheerio, which accepts any string; hrefs
  that do not resolve are skipped inside \<open>parseHTML\<close>; its text result is never used).
\<close>

record env =
  parseURL :: "string \<Rightarrow> URL option"
  sha256 :: "string \<Rightarrow> string"
  parseHTML :: "string \<Rightarrow> string \<Rightarrow> string list"

text \<open>What \<open>fetch\<close> gives: a network error or abort, or a response with its status, its
  content-type header if any, and its body.\<close>

datatype http_result = NetworkError | Response int "string option" string

text \<open>
  What one iteration of the crawl loop sees of the outside world: the reading of
  \<open>Date.now()\<close> in \<open>getFromBackQueue\<close>, the answer of \<open>RobotsHandler.canCrawl\<close> and
  whether \<open>DNSResolver.resolveHost\<close> succeeds (both with their caches and network
  traffic), the answer of \<open>fetch\<close>, and the reading of \<open>Date.now()\<close> that stamps the
  \<open>i\<close>-th extracted link.
\<close>

record world =
  date_now :: int
  robots_allowed :: "string \<Rightarrow> bool"
  dns_resolves :: "string \<Rightarrow> bool"
  http_fetch :: "string \<Rightarrow> http_result"
  stamp :: "nat \<Rightarrow> int"

subsection \<open>URLFilter\<close>

record URLFilter =
  blacklistedDomains :: "string list"
  allowedExtensions :: "string list"
  maxUrlLength :: nat

definition URLFilter_new :: URLFilter where
  "URLFilter_new =
     \<lparr>blacklistedDomains = set_add ''malicious.com'' (set_add ''spam.com'' []),
      allowedExtensions = [''.html'', ''.htm'', ''.php'', ''.asp'', ''.jsp''],
      maxUrlLength = 2000\<rparr>"

text \<open>\<open>toLowerCase\<close> on the ASCII letters (a \<open>pathname\<close> is ASCII: the parser
  percent-encodes everything else).  The length of a URL is counted in characters of
  the \<open>string\<close>, which is the JavaScript \<open>length\<close> for ASCII.\<close>

definition lower_char :: "char \<Rightarrow> char" where
  "lower_char c =
     (case map_of (zip ''ABCDEFGHIJKLMNOPQRSTUVWXYZ'' ''abcdefghijklmnopqrstuvwxyz'') c of
        None \<Rightarrow> c
      | Some l \<Rightarrow> l)"

definition toLowerCase :: "string \<Rightarrow> string" where
  "toLowerCase s = map lower_char s"

text \<open>\<open>pathname.substring(pathname.lastIndexOf("."))\<close>, for a pathname with a dot.\<close>

definition extension_of :: "string \<Rightarrow> string" where
  "extension_of p = CHR ''.'' # rev (takeWhile (\<lambda>c. c \<noteq> CHR ''.'') (rev p))"

definition isValidURL :: "env \<Rightarrow> URLFilter \<Rightarrow> string \<Rightarrow> bool" where
  "isValidURL lib flt u =
     (case parseURL lib u of
        None \<Rightarrow> False
      | Some urlObj \<Rightarrow>
          if length u > maxUrlLength flt then False
          else if hostname urlObj \<in> set (blacklistedDomains flt) then False
          else
            let p = toLowerCase (pathname urlObj);
                hasExtension = (CHR ''.'' \<in> set p)
            in if hasExtension \<and> extension_of p \<notin> set (allowedExtensions flt) then False
               else if protocol urlObj \<notin> set [''http:'', ''https:''] then False
               else True)"

subsection \<open>HTMLDownloader\<close>

text \<open>The ways \<open>download\<close> throws: \<open>new URL(url)\<close> rejects the string, robots.txt
  disallows, DNS resolution fails, or the transfer fails (network error, abort on
  timeout, or a status outside 200 to 299).\<close>

datatype download_error = InvalidURL | RobotsDisallowed | DNSFailed | DownloadFailed

definition download :: "env \<Rightarrow> world \<Rightarrow> string \<Rightarrow> bool \<Rightarrow> download_error + CrawlResult" where
  "download lib w u respect =
     (case parseURL lib u of
        None \<Rightarrow> Inl InvalidURL
      | Some urlObj \<Rightarrow>
          if respect \<and> \<not> robots_allowed w u then Inl RobotsDisallowed
          else if \<not> dns_resolves w (hostname urlObj) then Inl DNSFailed
          else
            (case http_fetch w u of
               NetworkError \<Rightarrow> Inl DownloadFailed
             | Response st ct body \<Rightarrow>
                 if \<not> (200 \<le> st \<and> st \<le> 299) then Inl DownloadFailed
                 else Inr \<lparr>res_url = u, content = body, links = [], statusCode = st,
                   contentType = (case ct of None \<Rightarrow> [] | Some t \<Rightarrow> t),
                   hash = sha256 lib body\<rparr>))"

subsection \<open>WebCrawler\<close>

text \<open>The downloader and the parser keep no state of their own in this model.\<close>

record WebCrawler =
  config :: CrawlConfig
  urlFrontier :: URLFrontier
  contentStorage :: ContentStorage
  urlStorage :: URLStorage
  urlFilter :: URLFilter
  crawledCount :: int

definition default_config :: CrawlConfig where
  "default_config =
     \<lparr>maxPages = 1000, maxDepth = 5, cfg_politenessDelay = 1000, timeout = 5000,
      userAgent = ''WebCrawler/1.0'', respectRobots = True\<rparr>"

definition WebCrawler_new :: "CrawlConfig \<Rightarrow> WebCrawler" where
  "WebCrawler_new cfg =
     \<lparr>config = cfg,
      urlFrontier = URLFrontier_new (cfg_politenessDelay cfg),
      contentStorage = ContentStorage_new,
      urlStorage = URLStorage_new,
      urlFilter = URLFilter_new,
      crawledCount = 0\<rparr>"

text \<open>
  The seed loop of \<open>crawl\<close>.  It runs outside the \<open>try\<close>, so an exception in it leaves
  \<open>crawl\<close> (\<open>None\<close>).  \<open>seed_stamp i\<close> is the reading of \<open>Date.now()\<close> for the
  \<open>i\<close>-th seed.
\<close>

fun add_seeds ::
  "env \<Rightarrow> (nat \<Rightarrow> int) \<Rightarrow> nat \<Rightarrow> string list \<Rightarrow> WebCrawler \<Rightarrow> WebCrawler option" where
  "add_seeds lib seed_stamp i [] c = Some c"
| "add_seeds lib seed_stamp i (u # us) c =
     (if isValidURL lib (urlFilter c) u then
        (case parseURL lib u of
           None \<Rightarrow> None
         | Some urlObj \<Rightarrow>
             (case addURL \<lparr>url = u, priority = 4, depth = 0, host = hostname urlObj,
                     timestamp = seed_stamp i\<rparr> (urlFrontier c) of
                None \<Rightarrow> None
              | Some f' \<Rightarrow> add_seeds lib seed_stamp (Suc i) us (c\<lparr>urlFrontier := f'\<rparr>)))
      else add_seeds lib seed_stamp (Suc i) us c)"

text \<open>
  The loop over the extracted links.  It runs inside the \<open>try\<close>: \<open>Inl f\<close> is an
  exception thrown when the frontier was \<open>f\<close>, \<open>Inr f\<close> is the frontier after the last
  link.  \<open>i\<close> is the position of the next link.
\<close>

fun add_links ::
  "env \<Rightarrow> world \<Rightarrow> URLFilter \<Rightarrow> URLStorage \<Rightarrow> URLInfo \<Rightarrow> nat \<Rightarrow> string list \<Rightarrow> URLFrontier
     \<Rightarrow> URLFrontier + URLFrontier" where
  "add_links lib w flt us urlInfo i [] f = Inr f"
| "add_links lib w flt us urlInfo i (link # rest) f =
     (if isValidURL lib flt link \<and> \<not> isURLSeen link us then
        (case parseURL lib link of
           None \<Rightarrow> Inl f
         | Some urlObj \<Rightarrow>
             (case addURL \<lparr>url = link, priority = max 0 (priority urlInfo - 1),
                     depth = depth urlInfo + 1, host = hostname urlObj,
                     timestamp = stamp w i\<rparr> f of
                None \<Rightarrow> Inl f
              | Some f' \<Rightarrow> add_links lib w flt us urlInfo (Suc i) rest f'))
      else add_links lib w flt us urlInfo (Suc i) rest f)"

text \<open>
  What one iteration of the main loop did: nothing was ready (the loop sleeps and goes
  on), the dispatched URL was discarded before the download, the \<open>catch\<close> block ran
  because the download threw, the content was a duplicate, the page was stored and its
  links were added, or the \<open>catch\<close> block ran because adding a link threw.
\<close>

datatype outcome =
    NotReady
  | Discarded URLInfo
  | Failed URLInfo download_error
  | DuplicateContent URLInfo
  | Crawled URLInfo CrawlResult
  | LinkError URLInfo

text \<open>One iteration of the \<open>while\<close> loop of \<open>crawl\<close>, below its condition.  \<open>None\<close> is an
  exception that leaves \<open>crawl\<close> (\<open>getNextURL\<close> is called outside the \<open>try\<close>).\<close>

definition crawl_step :: "env \<Rightarrow> world \<Rightarrow> WebCrawler \<Rightarrow> (outcome \<times> WebCrawler) option" where
  "crawl_step lib w c =
     (case getNextURL (date_now w) (urlFrontier c) of
        None \<Rightarrow> None
      | Some (None, f1) \<Rightarrow> Some (NotReady, c\<lparr>urlFrontier := f1\<rparr>)
      | Some (Some urlInfo, f1) \<Rightarrow>
          (let c1 = c\<lparr>urlFrontier := f1\<rparr> in
           if isURLSeen (url urlInfo) (urlStorage c1) \<or> depth urlInfo > maxDepth (config c1)
           then Some (Discarded urlInfo, c1)
           else
             (case download lib w (url urlInfo) (respectRobots (config c1)) of
                Inl e \<Rightarrow>
                  Some (Failed urlInfo e,
                    c1\<lparr>urlStorage := markAsVisited (url urlInfo) (urlStorage c1)\<rparr>)
              | Inr result \<Rightarrow>
                  if isContentSeen (hash result) (contentStorage c1)
                  then Some (DuplicateContent urlInfo,
                    c1\<lparr>urlStorage := markAsVisited (url urlInfo) (urlStorage c1)\<rparr>)
                  else
                    (let result' =
                           result\<lparr>links := parseHTML lib (content result) (url urlInfo)\<rparr>;
                         c2 = c1\<lparr>contentStorage := store result' (contentStorage c1),
                                urlStorage := markAsVisited (url urlInfo) (urlStorage c1),
                                crawledCount := crawledCount c1 + 1\<rparr>
                     in case add_links lib w (urlFilter c2) (urlStorage c2) urlInfo 0
                            (links result') (urlFrontier c2) of
                          Inr f2 \<Rightarrow> Some (Crawled urlInfo result', c2\<lparr>urlFrontier := f2\<rparr>)
                        | Inl f2 \<Rightarrow>
                            Some (LinkError urlInfo,
                              c2\<lparr>urlFrontier := f2,
                                 urlStorage := markAsVisited (url urlInfo) (urlStorage c2)\<rparr>)))))"

text \<open>The condition of the \<open>while\<close> loop.\<close>

definition loop_condition :: "WebCrawler \<Rightarrow> bool" where
  "loop_condition c = (\<not> isEmpty (urlFrontier c) \<and> crawledCount c < maxPages (config c))"

text \<open>
  How a run of the loop ends: it is still running when the fuel is used up, an exception
  has left \<open>crawl\<close>, or the loop has ended and \<open>crawl\<close> returns.  The crawler reached and
  the outcomes of the iterations so far (the newest first) are kept.
\<close>

datatype loop_end =
    Running WebCrawler "outcome list"
  | Uncaught
  | Returned WebCrawler "outcome list"

text \<open>The \<open>while\<close> loop with fuel; iteration \<open>i\<close> sees the world \<open>ws i\<close>.\<close>

fun crawl_loop ::
  "env \<Rightarrow> (nat \<Rightarrow> world) \<Rightarrow> nat \<Rightarrow> nat \<Rightarrow> WebCrawler \<Rightarrow> outcome list \<Rightarrow> loop_end" where
  "crawl_loop lib ws 0 i c tr = (if loop_condition c then Running c tr else Returned c tr)"
| "crawl_loop lib ws (Suc n) i c tr =
     (if loop_condition c then
        (case crawl_step lib (ws i) c of
           None \<Rightarrow> Uncaught
         | Some (out, c') \<Rightarrow> crawl_loop lib ws n (Suc i) c' (out # tr))
      else Returned c tr)"

definition crawl ::
  "env \<Rightarrow> (nat \<Rightarrow> int) \<Rightarrow> (nat \<Rightarrow> world) \<Rightarrow> nat \<Rightarrow> string list \<Rightarrow> WebCrawler \<Rightarrow> loop_end" where
  "crawl lib seed_stamp ws fuel seedUrls c =
     (case add_seeds lib seed_stamp 0 seedUrls c of
        None \<Rightarrow> Uncaught
      | Some c0 \<Rightarrow> crawl_loop lib ws fuel 0 c0 [])"


section \<open>Invariants, specification-level definitions and concrete inputs\<close>

subsection \<open>ContentStorage\<close>

text \<open>Every key of \<open>storage\<close> is the \<open>url\<close> of the record stored under it, and no
  key occurs twice.\<close>

definition storage_ok :: "ContentStorage \<Rightarrow> bool" where
  "storage_ok cs =
     (distinct (map fst (storage cs)) \<and> list_all (\<lambda>(k, r). res_url r = k) (storage cs))"

text \<open>A fresh store after the calls \<open>store r\<close> for the records of \<open>rs\<close>, in order.\<close>

definition store_all :: "CrawlResult list \<Rightarrow> ContentStorage" where
  "store_all rs = foldl (\<lambda>cs r. store r cs) ContentStorage_new rs"

definition page1 :: CrawlResult where
  "page1 = \<lparr>res_url = ''http://a/'', content = ''one'', links = [], statusCode = 200,
     contentType = ''text/html'', hash = ''h1''\<rparr>"

definition page1b :: CrawlResult where
  "page1b = \<lparr>res_url = ''http://a/'', content = ''two'', links = [], statusCode = 200,
     contentType = ''text/html'', hash = ''h2''\<rparr>"

subsection \<open>URLFrontier\<close>

text \<open>
  The invariant of the frontier: the tiers are exactly the keys 0 to 4 in this order, each
  tier is sorted by descending priority, no host has two back queues, and every URL in a
  back queue carries the host the queue is filed under.
\<close>

definition frontier_ok :: "URLFrontier \<Rightarrow> bool" where
  "frontier_ok f =
     (map fst (frontQueues f) = [0, 1, 2, 3, 4] \<and>
      list_all (\<lambda>(p, queue). sorted_wrt (\<lambda>a b. a \<ge> b) (map snd queue)) (frontQueues f) \<and>
      distinct (map fst (backQueues f)) \<and>
      list_all (\<lambda>(h, queue). list_all (\<lambda>u. host u = h) queue) (backQueues f))"

text \<open>The tier \<open>addURL\<close> files a priority under: its own when it is a key, else tier 0.\<close>

definition landing_tier :: "int \<Rightarrow> int" where
  "landing_tier p = (if 0 \<le> p \<and> p \<le> 4 then p else 0)"

text \<open>The tier the specification names: the priority clamped to the range 0 to 4.\<close>

definition spec_tier :: "int \<Rightarrow> int" where
  "spec_tier p = max 0 (min 4 p)"

definition tier_urls :: "int \<Rightarrow> URLFrontier \<Rightarrow> URLInfo list" where
  "tier_urls p f = (case map_of (frontQueues f) p of None \<Rightarrow> [] | Some queue \<Rightarrow> map fst queue)"

definition hi_url :: URLInfo where
  "hi_url = \<lparr>url = ''http://a/x'', priority = 7, depth = 0, host = ''a'', timestamp = 0\<rparr>"

text \<open>Every URL waiting in the frontier: the tiers in key order, then the back queues.\<close>

definition queued :: "URLFrontier \<Rightarrow> URLInfo list" where
  "queued f =
     concat (map (\<lambda>(p, queue). map fst queue) (frontQueues f)) @
     concat (map snd (backQueues f))"

definition holding :: "(string \<times> URLInfo list) list \<Rightarrow> string \<Rightarrow> URLInfo list" where
  "holding bq h = (case map_of bq h of None \<Rightarrow> [] | Some queue \<Rightarrow> queue)"

text \<open>
  dispatchNext in the specification's words, to be compared with \<open>getNextURL\<close>.
  Promotion: the front of the first non-empty tier among \<open>ps\<close> (4 down to 0) moves to the
  end of the holding queue of its host; nothing moves when all those tiers are empty.
\<close>

definition promote_from :: "int list \<Rightarrow> URLFrontier \<Rightarrow> URLFrontier" where
  "promote_from ps f =
     (case find (\<lambda>p. tier_urls p f \<noteq> []) ps of
        None \<Rightarrow> f
      | Some p \<Rightarrow>
          (case map_of (frontQueues f) p of
             Some (e # rest) \<Rightarrow>
               f\<lparr>frontQueues := AList.update p rest (frontQueues f),
                 backQueues :=
                   AList.update (host (fst e)) (holding (backQueues f) (host (fst e)) @ [fst e])
                     (backQueues f)\<rparr>
           | _ \<Rightarrow> f))"

definition spec_promote :: "URLFrontier \<Rightarrow> URLFrontier" where
  "spec_promote f = promote_from [4, 3, 2, 1, 0] f"

text \<open>
  Selection: the first holding queue, in host insertion order, that is non-empty and whose
  host is \<open>ready\<close> gives up its front element, and the host's last dispatch time becomes
  \<open>now\<close>; with no such queue nothing is returned and nothing changes.
\<close>

definition select_ready ::
  "(string \<Rightarrow> bool) \<Rightarrow> int \<Rightarrow> URLFrontier \<Rightarrow> URLInfo option \<times> URLFrontier" where
  "select_ready ready now f =
     (case find (\<lambda>(h, queue). queue \<noteq> [] \<and> ready h) (backQueues f) of
        Some (h, u # rest) \<Rightarrow>
          (Some u,
           f\<lparr>backQueues := AList.update h rest (backQueues f),
             lastAccessTime := AList.update h now (lastAccessTime f)\<rparr>)
      | _ \<Rightarrow> (None, f))"

text \<open>Readiness as the specification words it: the last dispatch time is absent, or at
  least \<open>politenessDelay\<close> before \<open>now\<close>.\<close>

definition spec_eligible :: "int \<Rightarrow> URLFrontier \<Rightarrow> string \<Rightarrow> bool" where
  "spec_eligible now f h =
     (case map_of (lastAccessTime f) h of
        None \<Rightarrow> True
      | Some t \<Rightarrow> now - t \<ge> politenessDelay f)"

text \<open>Readiness as amended: an absent last dispatch time counts as time 0.\<close>

definition epoch_eligible :: "int \<Rightarrow> URLFrontier \<Rightarrow> string \<Rightarrow> bool" where
  "epoch_eligible now f h =
     (now - (case map_of (lastAccessTime f) h of None \<Rightarrow> 0 | Some t \<Rightarrow> t) \<ge> politenessDelay f)"

definition spec_dispatchNext :: "int \<Rightarrow> URLFrontier \<Rightarrow> URLInfo option \<times> URLFrontier" where
  "spec_dispatchNext now f =
     select_ready (spec_eligible now (spec_promote f)) now (spec_promote f)"

definition dispatchNext :: "int \<Rightarrow> URLFrontier \<Rightarrow> URLInfo option \<times> URLFrontier" where
  "dispatchNext now f =
     select_ready (epoch_eligible now (spec_promote f)) now (spec_promote f)"

definition seedA :: URLInfo where
  "seedA = \<lparr>url = ''http://a/'', priority = 4, depth = 0, host = ''a'', timestamp = 0\<rparr>"

text \<open>A fresh frontier of delay 1000 after \<open>addURL seedA\<close>.\<close>

definition one_seed_frontier :: URLFrontier where
  "one_seed_frontier =
     \<lparr>frontQueues = [(0, []), (1, []), (2, []), (3, []), (4, [(seedA, 4)])],
      backQueues = [], lastAccessTime = [], politenessDelay = 1000\<rparr>"

text \<open>
  A client of the frontier: any sequence of \<open>addURL\<close> calls and of \<open>getNextURL\<close> calls,
  each of the latter with the clock reading it sees.  \<open>run_ops\<close> runs such a sequence and
  keeps the log of dispatches (clock reading and URL returned), the newest first.
\<close>

datatype frontier_op = Add URLInfo | Next int

fun run_ops ::
  "frontier_op list \<Rightarrow> URLFrontier \<times> (int \<times> URLInfo) list
     \<Rightarrow> (URLFrontier \<times> (int \<times> URLInfo) list) option" where
  "run_ops [] s = Some s"
| "run_ops (Add u # ops) (f, log) =
     (case addURL u f of
        None \<Rightarrow> None
      | Some f' \<Rightarrow> run_ops ops (f', log))"
| "run_ops (Next now # ops) (f, log) =
     (case getNextURL now f of
        None \<Rightarrow> None
      | Some (None, f') \<Rightarrow> run_ops ops (f', log)
      | Some (Some u, f') \<Rightarrow> run_ops ops (f', (now, u) # log))"

text \<open>The time of the latest dispatch to host \<open>h\<close> in a log, if there is one.\<close>

definition last_dispatch :: "string \<Rightarrow> (int \<times> URLInfo) list \<Rightarrow> int option" where
  "last_dispatch h log = map_option fst (find (\<lambda>(t, u). host u = h) log)"

text \<open>A log is polite when every dispatch comes at least \<open>d\<close> after the previous dispatch
  to the same host.\<close>

fun polite :: "int \<Rightarrow> (int \<times> URLInfo) list \<Rightarrow> bool" where
  "polite d [] = True"
| "polite d ((t, u) # earlier) =
     ((case last_dispatch (host u) earlier of None \<Rightarrow> True | Some t' \<Rightarrow> t - t' \<ge> d) \<and>
      polite d earlier)"

definition pageB :: URLInfo where
  "pageB = \<lparr>url = ''http://a/b'', priority = 3, depth = 1, host = ''a'', timestamp = 0\<rparr>"

text \<open>The invariant that links the frontier to the log of its dispatches.\<close>

definition log_inv :: "int \<Rightarrow> URLFrontier \<times> (int \<times> URLInfo) list \<Rightarrow> bool" where
  "log_inv d s =
     (frontier_ok (fst s) \<and> politenessDelay (fst s) = d \<and>
      (\<forall>h. map_of (lastAccessTime (fst s)) h = last_dispatch h (snd s)) \<and>
      polite d (snd s))"

subsection \<open>A small concrete site\<close>

text \<open>
  A stand-in for the library: URLs of the form \<open>http://host/path\<close> parse, the digest is
  the identity, and the page with body \<open>A\<close> links twice to \<open>http://a/b\<close>, then to
  \<open>http://a/c\<close> (the same body as \<open>http://a/b\<close>) and to \<open>http://a/d\<close> (status 404).
\<close>

definition toy_parseURL :: "string \<Rightarrow> URL option" where
  "toy_parseURL s =
     (if take 7 s = ''http://'' then
        Some \<lparr>protocol = ''http:'',
              hostname = takeWhile (\<lambda>c. c \<noteq> CHR ''/'') (drop 7 s),
              pathname = dropWhile (\<lambda>c. c \<noteq> CHR ''/'') (drop 7 s)\<rparr>
      else None)"

definition toy_lib :: env where
  "toy_lib =
     \<lparr>parseURL = toy_parseURL,
      sha256 = (\<lambda>body. body),
      parseHTML = (\<lambda>body base.
        if body = ''A'' then [''http://a/b'', ''http://a/b'', ''http://a/c'', ''http://a/d'']
        else [])\<rparr>"

definition toy_site :: "string \<Rightarrow> http_result" where
  "toy_site u =
     (if u = ''http://a/'' then Response 200 (Some ''text/html'') ''A''
      else if u = ''http://a/b'' then Response 200 (Some ''text/html'') ''B''
      else if u = ''http://a/c'' then Response 200 (Some ''text/html'') ''B''
      else Response 404 None [])"

text \<open>Iteration \<open>i\<close> runs at clock reading \<open>1000 * (i + 1)\<close>; robots.txt allows
  everything and every host resolves.\<close>

definition toy_world :: "nat \<Rightarrow> world" where
  "toy_world i =
     \<lparr>date_now = 1000 * (int i + 1),
      robots_allowed = (\<lambda>u. True),
      dns_resolves = (\<lambda>h. True),
      http_fetch = toy_site,
      stamp = (\<lambda>k. 1000 * (int i + 1))\<rparr>"

definition toy_config :: "int \<Rightarrow> int \<Rightarrow> CrawlConfig" where
  "toy_config p d = default_config\<lparr>maxPages := p, maxDepth := d\<rparr>"

definition toy_A :: URLInfo where
  "toy_A = \<lparr>url = ''http://a/'', priority = 4, depth = 0, host = ''a'', timestamp = 0\<rparr>"

definition toy_B :: URLInfo where
  "toy_B = \<lparr>url = ''http://a/b'', priority = 3, depth = 1, host = ''a'', timestamp = 1000\<rparr>"

definition toy_C :: URLInfo where
  "toy_C = \<lparr>url = ''http://a/c'', priority = 3, depth = 1, host = ''a'', timestamp = 1000\<rparr>"

definition toy_D :: URLInfo where
  "toy_D = \<lparr>url = ''http://a/d'', priority = 3, depth = 1, host = ''a'', timestamp = 1000\<rparr>"

definition toy_page_A :: CrawlResult where
  "toy_page_A =
     \<lparr>res_url = ''http://a/'', content = ''A'',
      links = [''http://a/b'', ''http://a/b'', ''http://a/c'', ''http://a/d''],
      statusCode = 200, contentType = ''text/html'', hash = ''A''\<rparr>"

definition toy_page_B :: CrawlResult where
  "toy_page_B =
     \<lparr>res_url = ''http://a/b'', content = ''B'', links = [],
      statusCode = 200, contentType = ''text/html'', hash = ''B''\<rparr>"


subsection \<open>The crawler\<close>

text \<open>
  The invariant of the crawler: the frontier and the store satisfy theirs, no URL is
  twice in the visited set, no two stored records have the same hash and every stored
  hash is recorded as seen, every stored URL is visited, and \<open>crawledCount\<close> is the
  number of stored records.
\<close>

definition crawler_ok :: "WebCrawler \<Rightarrow> bool" where
  "crawler_ok c =
     (frontier_ok (urlFrontier c) \<and>
      storage_ok (contentStorage c) \<and>
      distinct (visitedUrls (urlStorage c)) \<and>
      distinct (map hash (getAllResults (contentStorage c))) \<and>
      set (map hash (getAllResults (contentStorage c))) \<subseteq> set (seenHashes (contentStorage c)) \<and>
      set (map fst (storage (contentStorage c))) \<subseteq> set (visitedUrls (urlStorage c)) \<and>
      crawledCount c = int (length (storage (contentStorage c))))"

definition hostname_of :: "env \<Rightarrow> string \<Rightarrow> string" where
  "hostname_of lib u = (case parseURL lib u of None \<Rightarrow> [] | Some urlObj \<Rightarrow> hostname urlObj)"

text \<open>The PendingURL built for the link at position \<open>fst il\<close> of a page reached through
  \<open>urlInfo\<close>.\<close>

definition child_of :: "env \<Rightarrow> world \<Rightarrow> URLInfo \<Rightarrow> nat \<times> string \<Rightarrow> URLInfo" where
  "child_of lib w urlInfo il =
     \<lparr>url = snd il, priority = max 0 (priority urlInfo - 1), depth = depth urlInfo + 1,
      host = hostname_of lib (snd il), timestamp = stamp w (fst il)\<rparr>"

text \<open>The links, with their positions, that pass the filter and are not visited.\<close>

definition accepted_links ::
  "env \<Rightarrow> URLFilter \<Rightarrow> URLStorage \<Rightarrow> nat \<Rightarrow> string list \<Rightarrow> (nat \<times> string) list" where
  "accepted_links lib flt us i ls =
     filter (\<lambda>il. isValidURL lib flt (snd il) \<and> \<not> isURLSeen (snd il) us) (enumerate i ls)"

text \<open>The crawl of the small site from the seed \<open>http://a/\<close> with page budget \<open>p\<close>,
  depth limit \<open>d\<close> and fuel \<open>n\<close>, and what a run has reached.\<close>

definition toy_run :: "int \<Rightarrow> int \<Rightarrow> nat \<Rightarrow> loop_end" where
  "toy_run p d n =
     crawl toy_lib (\<lambda>i. 0) toy_world n [''http://a/''] (WebCrawler_new (toy_config p d))"

definition outcomes_of :: "loop_end \<Rightarrow> outcome list" where
  "outcomes_of e = (case e of Running c tr \<Rightarrow> tr | Uncaught \<Rightarrow> [] | Returned c tr \<Rightarrow> tr)"

definition visited_of :: "loop_end \<Rightarrow> string list" where
  "visited_of e =
     (case e of
        Running c tr \<Rightarrow> visitedUrls (urlStorage c)
      | Uncaught \<Rightarrow> []
      | Returned c tr \<Rightarrow> visitedUrls (urlStorage c))"

text \<open>The crawler that \<open>toy_run p d n\<close> has reached.\<close>

definition toy_state :: "int \<Rightarrow> int \<Rightarrow> nat \<Rightarrow> WebCrawler" where
  "toy_state p d n =
     (case toy_run p d n of
        Running c tr \<Rightarrow> c
      | Uncaught \<Rightarrow> WebCrawler_new (toy_config p d)
      | Returned c tr \<Rightarrow> c)"

text \<open>The frontier of a crawler after the dispatch at clock reading \<open>t\<close>.\<close>

definition dispatched :: "int \<Rightarrow> WebCrawler \<Rightarrow> URLFrontier" where
  "dispatched t c = snd (dispatchNext t (urlFrontier c))"


text \<open>The URL an iteration called the downloader on, if it did.\<close>

fun fetched :: "outcome \<Rightarrow> URLInfo option" where
  "fetched NotReady = None"
| "fetched (Discarded u) = None"
| "fetched (Failed u e) = Some u"
| "fetched (DuplicateContent u) = Some u"
| "fetched (Crawled u r) = Some u"
| "fetched (LinkError u) = Some u"

subsection \<open>Termination of the crawl loop\<close>






text \<open>Whether an iteration stored a page.\<close>

fun stored :: "outcome \<Rightarrow> bool" where
  "stored (Crawled u r) = True"
| "stored out = False"

text \<open>
  The invariant of the page budget along a run: \<open>crawledCount\<close> is the number of
  iterations that stored a page, it never exceeds \<open>maxPages\<close> (0 when that is negative),
  and once it has reached \<open>maxPages\<close> the newest iteration, if any, is one that stored.
\<close>

definition budget_inv :: "WebCrawler \<Rightarrow> outcome list \<Rightarrow> bool" where
  "budget_inv c tr =
     (crawledCount c = int (length (filter stored tr)) \<and>
      crawledCount c \<le> max 0 (maxPages (config c)) \<and>
      (maxPages (config c) \<le> crawledCount c \<longrightarrow>
         (case tr of [] \<Rightarrow> True | out # rest \<Rightarrow> stored out)))"

section \<open>Properties\<close>

subsection \<open>ContentStorage keeps one record per URL\<close>

lemma update_keyed:
  "list_all (\<lambda>(k, r). res_url r = k) al \<Longrightarrow>
   list_all (\<lambda>(k, r). res_url r = k) (AList.update (res_url x) x al)"
  by (induction al) auto

lemma storage_ok_store: "storage_ok cs \<Longrightarrow> storage_ok (store r cs)"
  by (simp add: storage_ok_def store_def distinct_update update_keyed)

lemma storage_ok_new: "storage_ok ContentStorage_new"
  by (simp add: storage_ok_def ContentStorage_new_def)

lemma storage_ok_foldl: "storage_ok cs \<Longrightarrow> storage_ok (foldl (\<lambda>cs r. store r cs) cs rs)"
  by (induction rs arbitrary: cs) (simp_all add: storage_ok_store)

lemma storage_ok_urls: "storage_ok cs \<Longrightarrow> map res_url (getAllResults cs) = map fst (storage cs)"
  unfolding storage_ok_def getAllResults_def
  by (induction "storage cs" arbitrary: cs) (auto simp: list_all_iff)

lemma length_update_present: "k \<in> fst ` set al \<Longrightarrow> length (AList.update k v al) = length al"
  by (induction al) auto

lemma update_absent: "k \<notin> fst ` set al \<Longrightarrow> AList.update k v al = al @ [(k, v)]"
  by (induction al) auto

text \<open>
  C10.  After any sequence of \<open>store\<close> calls on a fresh ContentStorage, no two records
  returned by \<open>getAllResults\<close> have the same \<open>url\<close>; and \<open>store\<close> on a record whose
  \<open>url\<close> is already a key leaves the number of records unchanged, makes the new record
  the one found under that url, and again leaves no two records with the same \<open>url\<close>.
\<close>

theorem store_one_record_per_url:
  "distinct (map res_url (getAllResults (store_all rs))) \<and>
   (res_url r \<in> set (map res_url (getAllResults (store_all rs))) \<longrightarrow>
      length (getAllResults (store r (store_all rs))) = length (getAllResults (store_all rs)) \<and>
      get (res_url r) (store r (store_all rs)) = Some r \<and>
      distinct (map res_url (getAllResults (store r (store_all rs)))))"
proof -
  have ok: "storage_ok (store_all rs)"
    unfolding store_all_def by (rule storage_ok_foldl [OF storage_ok_new])
  have d: "distinct (map res_url (getAllResults (store_all rs)))"
    using ok storage_ok_urls [OF ok] by (simp add: storage_ok_def)
  have ok': "storage_ok (store r (store_all rs))" by (rule storage_ok_store [OF ok])
  have d': "distinct (map res_url (getAllResults (store r (store_all rs))))"
    using ok' storage_ok_urls [OF ok'] by (simp add: storage_ok_def)
  have g: "get (res_url r) (store r (store_all rs)) = Some r"
    by (simp add: get_def store_def update_conv')
  have l: "length (getAllResults (store r (store_all rs))) = length (getAllResults (store_all rs))"
    if "res_url r \<in> set (map res_url (getAllResults (store_all rs)))"
  proof -
    from that have "res_url r \<in> fst ` set (storage (store_all rs))"
      using storage_ok_urls [OF ok] by (metis list.set_map)
    then show ?thesis by (simp add: getAllResults_def store_def length_update_present)
  qed
  show ?thesis using d d' g l by blast
qed

theorem store_one_record_per_url_witness:
  "res_url page1b \<in> set (map res_url (getAllResults (store_all [page1]))) \<and>
   getAllResults (store page1b (store_all [page1])) = [page1b]"
  using store_one_record_per_url [of "[page1]" page1b]
  by (simp add: store_all_def store_def ContentStorage_new_def getAllResults_def page1_def
      page1b_def set_add_def)

subsection \<open>addURL: the tier a URL lands in\<close>

lemma URLFrontier_new_tiers:
  "frontQueues (URLFrontier_new d) = [(0, []), (1, []), (2, []), (3, []), (4, [])]"
  by (simp add: URLFrontier_new_def)

lemma frontier_ok_new: "frontier_ok (URLFrontier_new d)"
  by (simp add: frontier_ok_def URLFrontier_new_def)

lemma tiers_lookup:
  assumes "map fst fq = [0, 1, 2, 3, (4::int)]"
  shows "(map_of fq p = None) = (\<not> (0 \<le> p \<and> p \<le> 4))"
proof -
  have "fst ` set fq = {0, 1, 2, 3, 4}"
    using assms by (metis list.set_map list.simps(15) empty_set insert_commute)
  then have "(map_of fq p = None) = (p \<notin> {0, 1, 2, 3, 4})"
    by (simp add: map_of_eq_None_iff)
  also have "\<dots> = (\<not> (0 \<le> p \<and> p \<le> 4))" by auto
  finally show ?thesis .
qed

lemma update_present_keys:
  "map_of al k = Some v0 \<Longrightarrow> map fst (AList.update k v al) = map fst al"
  by (induction al) (auto split: if_splits)

lemma splice_in_split:
  "\<exists>before after. q = before @ after \<and> splice_in (x, p) q = before @ [(x, p)] @ after \<and>
     (\<forall>e \<in> set before. snd e \<ge> p) \<and> (case after of [] \<Rightarrow> True | a # _ \<Rightarrow> snd a < p)"
proof (induction q)
  case Nil
  show ?case by simp
next
  case (Cons y q)
  show ?case
  proof (cases "p > snd y")
    case True
    then have "y # q = [] @ (y # q) \<and> splice_in (x, p) (y # q) = [] @ [(x, p)] @ (y # q) \<and>
        (\<forall>e \<in> set []. snd e \<ge> p) \<and> (case y # q of [] \<Rightarrow> True | a # _ \<Rightarrow> snd a < p)"
      by simp
    then show ?thesis by blast
  next
    case False
    from Cons.IH obtain before after where
      h: "q = before @ after" "splice_in (x, p) q = before @ [(x, p)] @ after"
         "\<forall>e \<in> set before. snd e \<ge> p" "case after of [] \<Rightarrow> True | a # _ \<Rightarrow> snd a < p"
      by blast
    from False h have "y # q = (y # before) @ after \<and>
        splice_in (x, p) (y # q) = (y # before) @ [(x, p)] @ after \<and>
        (\<forall>e \<in> set (y # before). snd e \<ge> p) \<and> (case after of [] \<Rightarrow> True | a # _ \<Rightarrow> snd a < p)"
      by simp
    then show ?thesis by blast
  qed
qed

lemma sorted_desc_tail_below:
  assumes "sorted_wrt (\<lambda>a b. a \<ge> b) (map snd (before @ after))"
    and "case after of [] \<Rightarrow> True | a # _ \<Rightarrow> snd a < (p::int)"
  shows "\<forall>e \<in> set after. snd e < p"
proof (cases after)
  case Nil
  then show ?thesis by simp
next
  case (Cons a rest)
  with assms(2) have a: "snd a < p" by simp
  from assms(1) Cons have "sorted_wrt (\<lambda>a b. a \<ge> b) (map snd (a # rest))"
    by (simp add: sorted_wrt_append)
  then have "\<forall>e \<in> set rest. snd e \<le> snd a" by auto
  with a Cons show ?thesis by auto
qed

lemma sorted_desc_insert:
  assumes "sorted_wrt (\<lambda>a b. a \<ge> b) (map snd (before @ after))"
    and "\<forall>e \<in> set before. snd e \<ge> (p::int)" and "\<forall>e \<in> set after. snd e < p"
  shows "sorted_wrt (\<lambda>a b. a \<ge> b) (map snd (before @ [(x, p)] @ after))"
  using assms by (auto simp: sorted_wrt_append)

lemma list_all_update:
  "list_all (\<lambda>(k, v). P k v) al \<Longrightarrow> P k v \<Longrightarrow> list_all (\<lambda>(k, v). P k v) (AList.update k v al)"
  by (induction al) auto

lemma map_of_list_all:
  "list_all (\<lambda>(k, v). P k v) al \<Longrightarrow> map_of al k = Some v \<Longrightarrow> P k v"
  by (induction al) (auto split: if_splits)

lemma addURL_split:
  assumes "frontier_ok f"
  shows "\<exists>queue before after.
     map_of (frontQueues f) (landing_tier (priority u)) = Some queue \<and>
     queue = before @ after \<and>
     (\<forall>e \<in> set before. snd e \<ge> priority u) \<and>
     (\<forall>e \<in> set after. snd e < priority u) \<and>
     addURL u f = Some (f\<lparr>frontQueues :=
        AList.update (landing_tier (priority u)) (before @ [(u, priority u)] @ after)
          (frontQueues f)\<rparr>) \<and>
     frontier_ok (f\<lparr>frontQueues :=
        AList.update (landing_tier (priority u)) (before @ [(u, priority u)] @ after)
          (frontQueues f)\<rparr>)"
proof -
  let ?t = "landing_tier (priority u)"
  from assms have keys: "map fst (frontQueues f) = [0, 1, 2, 3, 4]"
    and srt: "list_all (\<lambda>(p, queue). sorted_wrt (\<lambda>a b. a \<ge> b) (map snd queue)) (frontQueues f)"
    by (simp_all add: frontier_ok_def)
  have "map_of (frontQueues f) ?t \<noteq> None"
    using tiers_lookup [OF keys, of ?t] by (simp add: landing_tier_def)
  then obtain queue where q: "map_of (frontQueues f) ?t = Some queue" by blast
  have add: "addURL u f = Some (f\<lparr>frontQueues :=
        AList.update ?t (splice_in (u, priority u) queue) (frontQueues f)\<rparr>)"
  proof (cases "0 \<le> priority u \<and> priority u \<le> 4")
    case True
    with q show ?thesis by (simp add: addURL_def landing_tier_def enqueue_def)
  next
    case False
    then have "map_of (frontQueues f) (priority u) = None"
      using tiers_lookup [OF keys, of "priority u"] by simp
    moreover from False q have "map_of (frontQueues f) 0 = Some queue"
      by (auto simp: landing_tier_def split: if_splits)
    ultimately show ?thesis using False by (auto simp: addURL_def landing_tier_def enqueue_def)
  qed
  obtain before after where
    h: "queue = before @ after" "splice_in (u, priority u) queue = before @ [(u, priority u)] @ after"
       "\<forall>e \<in> set before. snd e \<ge> priority u"
       "case after of [] \<Rightarrow> True | a # _ \<Rightarrow> snd a < priority u"
    using splice_in_split [of queue u "priority u"] by blast
  have sq: "sorted_wrt (\<lambda>a b. a \<ge> b) (map snd queue)"
    using map_of_list_all [OF srt q] by simp
  have below: "\<forall>e \<in> set after. snd e < priority u"
    using sorted_desc_tail_below [of before after "priority u"] sq h(1) h(4) by simp
  have sq': "sorted_wrt (\<lambda>a b. a \<ge> b) (map snd (before @ [(u, priority u)] @ after))"
    using sorted_desc_insert [of before after "priority u" u] sq h(1) h(3) below by simp
  have srt': "list_all (\<lambda>(p, queue). sorted_wrt (\<lambda>a b. a \<ge> b) (map snd queue))
      (AList.update ?t (before @ [(u, priority u)] @ after) (frontQueues f))"
    by (rule list_all_update [OF srt]) (use sq' in simp)
  have ok: "frontier_ok (f\<lparr>frontQueues :=
        AList.update ?t (before @ [(u, priority u)] @ after) (frontQueues f)\<rparr>)"
    using assms srt' update_present_keys [OF q]
    by (simp add: frontier_ok_def)
  from q h(1) h(3) below add h(2) ok show ?thesis by auto
qed

text \<open>
  C3 (as amended).  On a frontier satisfying the invariant, \<open>addURL\<close> always succeeds.
  The URL lands in the tier of its own priority when that is one of 0 to 4, and in tier
  0 otherwise (also when the priority is above 4).  Inside the tier it is placed behind
  every queued URL of the same or a higher priority and ahead of every URL of a lower
  one, so URLs of equal priority leave in the order they were added.  Nothing else
  changes and the invariant is kept.
\<close>

theorem addURL_lands_in_tier:
  assumes "frontier_ok f"
  shows "\<exists>queue before after.
     map_of (frontQueues f) (landing_tier (priority u)) = Some queue \<and>
     queue = before @ after \<and>
     (\<forall>e \<in> set before. snd e \<ge> priority u) \<and>
     (\<forall>e \<in> set after. snd e < priority u) \<and>
     addURL u f = Some (f\<lparr>frontQueues :=
        AList.update (landing_tier (priority u)) (before @ [(u, priority u)] @ after)
          (frontQueues f)\<rparr>) \<and>
     frontier_ok (f\<lparr>frontQueues :=
        AList.update (landing_tier (priority u)) (before @ [(u, priority u)] @ after)
          (frontQueues f)\<rparr>)"
  using assms by (rule addURL_split)

text \<open>
  C3 as stated fails: a URL of priority 7 should land in tier 4 (7 clamped to the range),
  but \<open>addURL\<close> leaves tier 4 empty and files it in tier 0.
\<close>

theorem addURL_clamp_counterexample:
  "spec_tier (priority hi_url) = 4 \<and>
   map_option (tier_urls 4) (addURL hi_url (URLFrontier_new 1000)) = Some [] \<and>
   map_option (tier_urls 0) (addURL hi_url (URLFrontier_new 1000)) = Some [hi_url]"
  by (simp add: spec_tier_def tier_urls_def addURL_def URLFrontier_new_def hi_url_def enqueue_def)

theorem addURL_lands_in_tier_witness:
  "frontier_ok (URLFrontier_new 1000) \<and>
   (\<exists>f'. addURL hi_url (URLFrontier_new 1000) = Some f' \<and> frontier_ok f')"
  using addURL_lands_in_tier [OF frontier_ok_new, of 1000 hi_url] frontier_ok_new
  by blast

subsection \<open>getNextURL against the specification of dispatchNext\<close>

lemma lastAccess_of_eq:
  "lastAccess_of la h = (case map_of la h of None \<Rightarrow> 0 | Some t \<Rightarrow> t)"
  by (simp add: lastAccess_of_def split: option.splits)

lemma update_other_head:
  "h' \<noteq> h \<Longrightarrow> AList.update h' v ((h, q) # rest) = (h, q) # AList.update h' v rest"
  by simp

lemma find_in_rest:
  "find P xs = Some (h', q') \<Longrightarrow> h' \<in> fst ` set xs"
  by (induction xs) (auto split: if_splits)

lemma scan_backQueues_find:
  "distinct (map fst bq) \<Longrightarrow>
   scan_backQueues now d la bq =
     (case find (\<lambda>(h, queue). queue \<noteq> [] \<and> now - lastAccess_of la h \<ge> d) bq of
        Some (h, u # rest) \<Rightarrow> Some (u, h, AList.update h rest bq)
      | _ \<Rightarrow> None)"
proof (induction bq)
  case Nil
  show ?case by simp
next
  case (Cons e bq)
  obtain h q where e: "e = (h, q)" by (cases e)
  from Cons.prems e have hn: "h \<notin> fst ` set bq" and d: "distinct (map fst bq)" by auto
  let ?P = "\<lambda>(h, queue). queue \<noteq> [] \<and> now - lastAccess_of la h \<ge> d"
  show ?case
  proof (cases "?P (h, q)")
    case True
    then show ?thesis using e by (cases q) auto
  next
    case False
    have other: "h' \<noteq> h" if "find ?P bq = Some (h', q')" for h' q'
      using find_in_rest [OF that] hn by auto
    from False e have sc: "scan_backQueues now d la (e # bq) =
        (case scan_backQueues now d la bq of None \<Rightarrow> None
         | Some (u, h', rest') \<Rightarrow> Some (u, h', e # rest'))"
      by (cases q) auto
    from False e have fnd: "find ?P (e # bq) = find ?P bq" by auto
    show ?thesis
    proof (cases "find ?P bq")
      case None
      then show ?thesis unfolding sc fnd Cons.IH [OF d] by simp
    next
      case (Some hq)
      obtain h' q' where hq: "hq = (h', q')" by (cases hq)
      from other Some hq have ne: "h' \<noteq> h" by simp
      from Some hq ne e show ?thesis unfolding sc fnd Cons.IH [OF d]
        by (cases q') simp_all
    qed
  qed
qed

lemma move_to_backQueue_eq:
  "move_to_backQueue u bq = Some (AList.update (host u) (holding bq (host u) @ [u]) bq)"
  by (cases "map_of bq (host u)") (simp_all add: move_to_backQueue_def holding_def update_conv')

lemma getNextURL_from_promote:
  "\<forall>p \<in> set ps. map_of (frontQueues f) p \<noteq> None \<Longrightarrow>
   getNextURL_from ps now f = Some (getFromBackQueue now (promote_from ps f))"
proof (induction ps)
  case Nil
  show ?case by (simp add: promote_from_def)
next
  case (Cons p ps)
  then obtain queue where q: "map_of (frontQueues f) p = Some queue" by auto
  show ?case
  proof (cases queue)
    case Nil
    with q Cons show ?thesis
      by (simp add: promote_from_def tier_urls_def pq_isEmpty_def)
  next
    case (Cons e rest)
    with q show ?thesis
      by (simp add: promote_from_def tier_urls_def pq_isEmpty_def dequeue_def
          move_to_backQueue_eq)
  qed
qed

lemma getFromBackQueue_select:
  "distinct (map fst (backQueues g)) \<Longrightarrow>
   getFromBackQueue now g = select_ready (epoch_eligible now g) now g"
proof -
  assume d: "distinct (map fst (backQueues g))"
  have P: "(\<lambda>(h, queue). queue \<noteq> [] \<and> now - lastAccess_of (lastAccessTime g) h \<ge> politenessDelay g)
      = (\<lambda>(h, queue). queue \<noteq> [] \<and> epoch_eligible now g h)"
    by (simp add: epoch_eligible_def lastAccess_of_eq)
  show ?thesis
    unfolding getFromBackQueue_def select_ready_def scan_backQueues_find [OF d] P
    by (auto split: option.splits list.splits)
qed

lemma find_Some_set: "find P xs = Some x \<Longrightarrow> x \<in> set xs \<and> P x"
  by (induction xs) (auto split: if_splits)

lemma map_of_distinct_mem:
  "distinct (map fst al) \<Longrightarrow> (k, v) \<in> set al \<Longrightarrow> map_of al k = Some v"
  by simp

lemma sorted_rest:
  "sorted_wrt (\<lambda>a b. a \<ge> b) (map snd (e # rest)) \<Longrightarrow> sorted_wrt (\<lambda>a b. (a::int) \<ge> b) (map snd rest)"
  by simp

lemma holding_hosts:
  "list_all (\<lambda>(h, queue). list_all (\<lambda>u. host u = h) queue) bq \<Longrightarrow>
   list_all (\<lambda>u. host u = h) (holding bq h)"
proof (cases "map_of bq h")
  case None
  then show ?thesis by (simp add: holding_def)
next
  case (Some queue)
  assume "list_all (\<lambda>(h, queue). list_all (\<lambda>u. host u = h) queue) bq"
  from map_of_list_all [OF this Some] Some show ?thesis by (simp add: holding_def)
qed

lemma frontier_ok_promote:
  assumes "frontier_ok f"
  shows "frontier_ok (promote_from ps f)"
proof (cases "find (\<lambda>p. tier_urls p f \<noteq> []) ps")
  case None
  with assms show ?thesis by (simp add: promote_from_def)
next
  case (Some p)
  show ?thesis
  proof (cases "map_of (frontQueues f) p")
    case None
    with Some assms show ?thesis by (simp add: promote_from_def)
  next
    case q: (Some queue)
    show ?thesis
    proof (cases queue)
      case Nil
      with Some q assms show ?thesis by (simp add: promote_from_def)
    next
      case (Cons e rest)
      let ?h = "host (fst e)"
      from assms have
        keys: "map fst (frontQueues f) = [0, 1, 2, 3, 4]" and
        srt: "list_all (\<lambda>(p, queue). sorted_wrt (\<lambda>a b. a \<ge> b) (map snd queue)) (frontQueues f)" and
        dk: "distinct (map fst (backQueues f))" and
        hk: "list_all (\<lambda>(h, queue). list_all (\<lambda>u. host u = h) queue) (backQueues f)"
        by (simp_all add: frontier_ok_def)
      from q Cons have qe: "map_of (frontQueues f) p = Some (e # rest)" by simp
      have k': "map fst (AList.update p rest (frontQueues f)) = [0, 1, 2, 3, 4]"
        using update_present_keys [OF qe] keys by simp
      have s': "list_all (\<lambda>(p, queue). sorted_wrt (\<lambda>a b. a \<ge> b) (map snd queue))
          (AList.update p rest (frontQueues f))"
        by (rule list_all_update [OF srt]) (use map_of_list_all [OF srt qe] in simp)
      have d': "distinct (map fst (AList.update ?h (holding (backQueues f) ?h @ [fst e]) (backQueues f)))"
        using dk by (rule distinct_update)
      have h': "list_all (\<lambda>(h, queue). list_all (\<lambda>u. host u = h) queue)
          (AList.update ?h (holding (backQueues f) ?h @ [fst e]) (backQueues f))"
        by (rule list_all_update [OF hk]) (use holding_hosts [OF hk, of ?h] in simp)
      from Some qe k' s' d' h' show ?thesis
        by (simp add: promote_from_def frontier_ok_def)
    qed
  qed
qed

lemma frontier_ok_select:
  assumes "frontier_ok f"
  shows "frontier_ok (snd (select_ready ready now f))"
proof (cases "find (\<lambda>(h, queue). queue \<noteq> [] \<and> ready h) (backQueues f)")
  case None
  with assms show ?thesis by (simp add: select_ready_def)
next
  case (Some hq)
  obtain h queue where hq: "hq = (h, queue)" by (cases hq)
  show ?thesis
  proof (cases queue)
    case Nil
    with Some hq assms show ?thesis by (simp add: select_ready_def)
  next
    case (Cons u rest)
    from assms have
      dk: "distinct (map fst (backQueues f))" and
      hk: "list_all (\<lambda>(h, queue). list_all (\<lambda>u. host u = h) queue) (backQueues f)"
      by (simp_all add: frontier_ok_def)
    from find_Some_set [OF Some] hq Cons have "(h, u # rest) \<in> set (backQueues f)" by simp
    then have m: "map_of (backQueues f) h = Some (u # rest)" using dk by simp
    have d': "distinct (map fst (AList.update h rest (backQueues f)))"
      using dk by (rule distinct_update)
    have h': "list_all (\<lambda>(h, queue). list_all (\<lambda>u. host u = h) queue)
        (AList.update h rest (backQueues f))"
      by (rule list_all_update [OF hk]) (use map_of_list_all [OF hk m] in simp)
    from Some hq Cons assms d' h' show ?thesis
      by (simp add: select_ready_def frontier_ok_def)
  qed
qed

lemma mset_concat_update:
  "mset (concat (map g (AList.update k v al))) +
     mset (case map_of al k of None \<Rightarrow> [] | Some v0 \<Rightarrow> g (k, v0)) =
   mset (concat (map g al)) + mset (g (k, v))"
  by (induction al) auto

lemma mset_queued_promote: "mset (queued (promote_from ps f)) = mset (queued f)"
proof (cases "find (\<lambda>p. tier_urls p f \<noteq> []) ps")
  case None
  then show ?thesis by (simp add: promote_from_def)
next
  case (Some p)
  show ?thesis
  proof (cases "map_of (frontQueues f) p")
    case None
    with Some show ?thesis by (simp add: promote_from_def)
  next
    case q: (Some queue)
    show ?thesis
    proof (cases queue)
      case Nil
      with Some q show ?thesis by (simp add: promote_from_def)
    next
      case (Cons e rest)
      let ?h = "host (fst e)"
      let ?g = "\<lambda>(p, queue). map fst queue"
      from q Cons have qe: "map_of (frontQueues f) p = Some (e # rest)" by simp
      have a: "mset (concat (map ?g (AList.update p rest (frontQueues f)))) + {#fst e#} =
          mset (concat (map ?g (frontQueues f)))"
        using mset_concat_update [of ?g p rest "frontQueues f"] qe by simp
      have b: "mset (concat (map snd (AList.update ?h (holding (backQueues f) ?h @ [fst e]) (backQueues f)))) =
          mset (concat (map snd (backQueues f))) + {#fst e#}"
        using mset_concat_update [of snd ?h "holding (backQueues f) ?h @ [fst e]" "backQueues f"]
        by (simp add: holding_def split: option.splits)
      from Some qe show ?thesis
        by (simp add: promote_from_def queued_def a [symmetric] b)
    qed
  qed
qed

lemma mset_queued_select:
  assumes "distinct (map fst (backQueues f))"
  shows "case fst (select_ready ready now f) of
           None \<Rightarrow> snd (select_ready ready now f) = f
         | Some u \<Rightarrow> add_mset u (mset (queued (snd (select_ready ready now f)))) = mset (queued f)"
proof (cases "find (\<lambda>(h, queue). queue \<noteq> [] \<and> ready h) (backQueues f)")
  case None
  then show ?thesis by (simp add: select_ready_def)
next
  case (Some hq)
  obtain h queue where hq: "hq = (h, queue)" by (cases hq)
  show ?thesis
  proof (cases queue)
    case Nil
    with Some hq show ?thesis by (simp add: select_ready_def)
  next
    case (Cons u rest)
    from find_Some_set [OF Some] hq Cons have "(h, u # rest) \<in> set (backQueues f)" by simp
    then have m: "map_of (backQueues f) h = Some (u # rest)" using assms by simp
    have b: "add_mset u (mset (concat (map snd (AList.update h rest (backQueues f))))) =
        mset (concat (map snd (backQueues f)))"
      using mset_concat_update [of snd h rest "backQueues f"] m by simp
    from Some hq Cons show ?thesis
      by (simp add: select_ready_def queued_def b [symmetric])
  qed
qed

lemma getNextURL_eq:
  assumes "frontier_ok f"
  shows "getNextURL now f = Some (dispatchNext now f)"
proof -
  let ?g = "spec_promote f"
  from assms have keys: "map fst (frontQueues f) = [0, 1, 2, 3, 4]"
    by (simp add: frontier_ok_def)
  have "\<forall>p \<in> set [4, 3, 2, 1, 0]. map_of (frontQueues f) p \<noteq> None"
    using tiers_lookup [OF keys] by simp
  then have a: "getNextURL now f = Some (getFromBackQueue now ?g)"
    unfolding getNextURL_def spec_promote_def by (rule getNextURL_from_promote)
  have "frontier_ok ?g" unfolding spec_promote_def by (rule frontier_ok_promote [OF assms])
  then have dg: "distinct (map fst (backQueues ?g))" by (simp add: frontier_ok_def)
  have "getFromBackQueue now ?g = dispatchNext now f"
    unfolding dispatchNext_def by (rule getFromBackQueue_select [OF dg])
  with a show ?thesis by simp
qed

lemma frontier_ok_dispatchNext:
  assumes "frontier_ok f"
  shows "frontier_ok (snd (dispatchNext now f))"
  unfolding dispatchNext_def spec_promote_def
  by (rule frontier_ok_select [OF frontier_ok_promote [OF assms]])

lemma queued_dispatchNext:
  assumes "frontier_ok f"
  shows "case fst (dispatchNext now f) of
        None \<Rightarrow> mset (queued (snd (dispatchNext now f))) = mset (queued f)
      | Some u \<Rightarrow> add_mset u (mset (queued (snd (dispatchNext now f)))) = mset (queued f)"
proof -
  let ?g = "spec_promote f"
  have "frontier_ok ?g" unfolding spec_promote_def by (rule frontier_ok_promote [OF assms])
  then have dg: "distinct (map fst (backQueues ?g))" by (simp add: frontier_ok_def)
  have mg: "mset (queued ?g) = mset (queued f)"
    unfolding spec_promote_def by (rule mset_queued_promote)
  show ?thesis
    using mset_queued_select [OF dg, of "epoch_eligible now ?g" now] mg
    unfolding dispatchNext_def by (auto split: option.splits)
qed

text \<open>
  C1 (as amended).  On a frontier satisfying the invariant, \<open>getNextURL\<close> does not raise
  and does what dispatchNext is specified to do, with one change: a host whose last
  dispatch time is absent is treated as last dispatched at time 0.  At most one URL is
  promoted, from the front of the highest non-empty tier to the end of the holding queue
  of its host; then the holding queues are scanned in host insertion order, and the front
  of the first non-empty queue whose host's last dispatch time (0 when absent) is at least
  \<open>politenessDelay\<close> before \<open>now\<close> is removed and returned, and that time is set to
  \<open>now\<close>.  When nothing is returned every queued URL is still queued; when a URL is
  returned exactly that URL has left the queues.  The invariant is kept.
\<close>

theorem getNextURL_dispatchNext:
  assumes "frontier_ok f"
  shows "getNextURL now f = Some (dispatchNext now f) \<and>
     frontier_ok (snd (dispatchNext now f)) \<and>
     (case fst (dispatchNext now f) of
        None \<Rightarrow> mset (queued (snd (dispatchNext now f))) = mset (queued f)
      | Some u \<Rightarrow> add_mset u (mset (queued (snd (dispatchNext now f)))) = mset (queued f))"
  using getNextURL_eq [OF assms] frontier_ok_dispatchNext [OF assms] queued_dispatchNext [OF assms]
  by simp

lemmas frontier_eval =
  getNextURL_def getFromBackQueue_def move_to_backQueue_def dequeue_def pq_isEmpty_def
  lastAccess_of_def enqueue_def addURL_def

text \<open>
  C1 as stated fails where it says a host with no last dispatch time is eligible: on a
  fresh frontier of delay 1000 holding one seed, at clock reading 0, dispatchNext as
  specified returns the seed, and \<open>getNextURL\<close> returns nothing.
\<close>

theorem getNextURL_absent_counterexample:
  "fst (spec_dispatchNext 0 one_seed_frontier) = Some seedA \<and>
   map_option fst (getNextURL 0 one_seed_frontier) = Some None"
  by (simp add: spec_dispatchNext_def spec_promote_def promote_from_def select_ready_def
      spec_eligible_def tier_urls_def holding_def one_seed_frontier_def seedA_def frontier_eval)

lemma frontier_ok_one_seed: "frontier_ok one_seed_frontier"
  by (simp add: frontier_ok_def one_seed_frontier_def)

theorem getNextURL_dispatchNext_witness:
  "frontier_ok one_seed_frontier \<and>
   map_option fst (getNextURL 1000 one_seed_frontier) = Some (Some seedA) \<and>
   map_option fst (getNextURL 500 one_seed_frontier) = Some None"
proof -
  have e1: "fst (dispatchNext 1000 one_seed_frontier) = Some seedA"
    by (simp add: dispatchNext_def spec_promote_def promote_from_def select_ready_def
      epoch_eligible_def tier_urls_def holding_def one_seed_frontier_def seedA_def)
  have e2: "fst (dispatchNext 500 one_seed_frontier) = None"
    by (simp add: dispatchNext_def spec_promote_def promote_from_def select_ready_def
      epoch_eligible_def tier_urls_def holding_def one_seed_frontier_def seedA_def)
  from getNextURL_dispatchNext [OF frontier_ok_one_seed, of 1000]
    getNextURL_dispatchNext [OF frontier_ok_one_seed, of 500] e1 e2 frontier_ok_one_seed
  show ?thesis by simp
qed

subsection \<open>Politeness of every run of the frontier\<close>

lemma select_ready_None: "select_ready ready now f = (None, f') \<Longrightarrow> f' = f"
  by (auto simp: select_ready_def split: option.splits list.splits prod.splits)

lemma select_ready_Some:
  assumes "select_ready ready now f = (Some u, f')"
  shows "\<exists>h rest. (h, u # rest) \<in> set (backQueues f) \<and> ready h \<and>
     f' = f\<lparr>backQueues := AList.update h rest (backQueues f),
            lastAccessTime := AList.update h now (lastAccessTime f)\<rparr>"
proof (cases "find (\<lambda>(h, queue). queue \<noteq> [] \<and> ready h) (backQueues f)")
  case None
  with assms show ?thesis by (simp add: select_ready_def)
next
  case (Some hq)
  obtain h queue where hq: "hq = (h, queue)" by (cases hq)
  from find_Some_set [OF Some] hq have m: "(h, queue) \<in> set (backQueues f)" "ready h" by auto
  from assms Some hq m show ?thesis
    by (cases queue) (auto simp: select_ready_def)
qed

lemma promote_from_keeps:
  "lastAccessTime (promote_from ps f) = lastAccessTime f"
  "politenessDelay (promote_from ps f) = politenessDelay f"
  by (simp_all add: promote_from_def split: option.splits list.splits)

lemma log_inv_new: "log_inv d (URLFrontier_new d, [])"
proof -
  have "lastAccessTime (URLFrontier_new d) = []" "politenessDelay (URLFrontier_new d) = d"
    by (simp_all add: URLFrontier_new_def)
  then show ?thesis by (simp add: log_inv_def frontier_ok_new last_dispatch_def)
qed

lemma addURL_total:
  assumes "frontier_ok f"
  shows "\<exists>f'. addURL u f = Some f' \<and> frontier_ok f' \<and>
     lastAccessTime f' = lastAccessTime f \<and> politenessDelay f' = politenessDelay f \<and>
     backQueues f' = backQueues f"
  using addURL_split [OF assms, of u] by auto

lemma log_inv_Add:
  assumes "log_inv d (f, log)"
  shows "\<exists>f'. addURL u f = Some f' \<and> log_inv d (f', log)"
proof -
  from assms have ok: "frontier_ok f" by (simp add: log_inv_def)
  from addURL_total [OF ok, of u] obtain f' where
    "addURL u f = Some f'" "frontier_ok f'" "lastAccessTime f' = lastAccessTime f"
    "politenessDelay f' = politenessDelay f"
    by blast
  with assms show ?thesis by (simp add: log_inv_def)
qed

lemma last_dispatch_Cons:
  "last_dispatch h ((t, u) # log) = (if host u = h then Some t else last_dispatch h log)"
  by (simp add: last_dispatch_def)

lemma log_inv_Next:
  assumes "log_inv d (f, log)"
  shows "case dispatchNext now f of
           (None, f') \<Rightarrow> log_inv d (f', log)
         | (Some u, f') \<Rightarrow> log_inv d (f', (now, u) # log)"
proof -
  let ?g = "spec_promote f"
  from assms have ok: "frontier_ok f" and dly: "politenessDelay f = d"
    and la: "\<forall>h. map_of (lastAccessTime f) h = last_dispatch h log" and pol: "polite d log"
    by (simp_all add: log_inv_def)
  have okg: "frontier_ok ?g" unfolding spec_promote_def by (rule frontier_ok_promote [OF ok])
  have lag: "lastAccessTime ?g = lastAccessTime f" and dg: "politenessDelay ?g = d"
    using dly by (simp_all add: spec_promote_def promote_from_keeps)
  obtain r f' where res: "dispatchNext now f = (r, f')" by (cases "dispatchNext now f")
  have ok': "frontier_ok f'" using frontier_ok_dispatchNext [OF ok, of now] res by simp
  show ?thesis
  proof (cases r)
    case None
    with res have "f' = ?g" unfolding dispatchNext_def by (simp add: select_ready_None)
    with res None ok' lag dg la pol show ?thesis by (simp add: log_inv_def)
  next
    case (Some u)
    with res have "select_ready (epoch_eligible now ?g) now ?g = (Some u, f')"
      by (simp add: dispatchNext_def)
    from select_ready_Some [OF this] obtain h rest where
      mem: "(h, u # rest) \<in> set (backQueues ?g)" and rdy: "epoch_eligible now ?g h" and
      f': "f' = ?g\<lparr>backQueues := AList.update h rest (backQueues ?g),
            lastAccessTime := AList.update h now (lastAccessTime ?g)\<rparr>"
      by blast
    from okg have "list_all (\<lambda>(h, queue). list_all (\<lambda>u. host u = h) queue) (backQueues ?g)"
      by (simp add: frontier_ok_def)
    with mem have hu: "host u = h" by (auto simp: list_all_iff)
    have la': "\<forall>h'. map_of (lastAccessTime f') h' = last_dispatch h' ((now, u) # log)"
      using la hu by (simp add: f' lag update_conv' last_dispatch_Cons)
    have gap: "case last_dispatch (host u) log of None \<Rightarrow> True | Some t' \<Rightarrow> now - t' \<ge> d"
      using rdy la hu by (simp add: epoch_eligible_def lag dg split: option.splits)
    from res Some ok' la' gap pol dg show ?thesis by (simp add: log_inv_def f')
  qed
qed

lemma run_ops_log_inv:
  "log_inv d s \<Longrightarrow> \<exists>s'. run_ops ops s = Some s' \<and> log_inv d s'"
proof (induction ops arbitrary: s)
  case Nil
  then show ?case by simp
next
  case (Cons op ops)
  obtain f log where s: "s = (f, log)" by (cases s)
  show ?case
  proof (cases op)
    case (Add u)
    from log_inv_Add [of d f log u] Cons.prems s obtain f' where
      a: "addURL u f = Some f'" "log_inv d (f', log)" by blast
    from Cons.IH [OF a(2)] a(1) s Add show ?thesis by simp
  next
    case (Next now)
    from Cons.prems s have ok: "frontier_ok f" by (simp add: log_inv_def)
    obtain r f' where res: "dispatchNext now f = (r, f')" by (cases "dispatchNext now f")
    have g: "getNextURL now f = Some (r, f')" using getNextURL_eq [OF ok, of now] res by simp
    show ?thesis
    proof (cases r)
      case None
      with log_inv_Next [of d f log now] Cons.prems s res have "log_inv d (f', log)" by simp
      from Cons.IH [OF this] g s Next None show ?thesis by simp
    next
      case (Some u)
      with log_inv_Next [of d f log now] Cons.prems s res have "log_inv d (f', (now, u) # log)"
        by simp
      from Cons.IH [OF this] g s Next Some show ?thesis by simp
    qed
  qed
qed

text \<open>
  C2.  Whatever sequence of \<open>addURL\<close> and \<open>getNextURL\<close> calls a fresh frontier of delay
  \<open>d\<close> receives, and whatever the clock readings, no call raises, and every URL it
  returns is dispatched at least \<open>d\<close> after the previous URL returned for the same host
  field; the last dispatch time the frontier keeps for a host is the time of the latest
  dispatch to it.
\<close>

theorem frontier_dispatches_are_polite:
  "\<exists>f log. run_ops ops (URLFrontier_new d, []) = Some (f, log) \<and> polite d log \<and>
     (\<forall>h. map_of (lastAccessTime f) h = last_dispatch h log)"
  using run_ops_log_inv [of d "(URLFrontier_new d, [])" ops, OF log_inv_new] by (auto simp: log_inv_def)

theorem frontier_dispatches_are_polite_witness:
  "map_option snd (run_ops [Add seedA, Add pageB, Next 1000, Next 1500, Next 2000]
      (URLFrontier_new 1000, [])) = Some [(2000, pageB), (1000, seedA)] \<and>
   polite 1000 [(2000, pageB), (1000, seedA)]"
proof -
  have e: "map_option snd (run_ops [Add seedA, Add pageB, Next 1000, Next 1500, Next 2000]
      (URLFrontier_new 1000, [])) = Some [(2000, pageB), (1000, seedA)]"
    by (simp add: URLFrontier_new_def seedA_def pageB_def frontier_eval)
  from frontier_dispatches_are_polite
    [of "[Add seedA, Add pageB, Next 1000, Next 1500, Next 2000]" 1000]
  obtain f log where
    r: "run_ops [Add seedA, Add pageB, Next 1000, Next 1500, Next 2000]
      (URLFrontier_new 1000, []) = Some (f, log)" and p: "polite 1000 log"
    by blast
  from e r have "log = [(2000, pageB), (1000, seedA)]" by simp
  with p e show ?thesis by simp
qed

subsection \<open>The crawl loop keeps its invariant\<close>

lemma addURL_effect:
  assumes "frontier_ok f"
  shows "\<exists>f'. addURL u f = Some f' \<and> frontier_ok f' \<and>
     mset (queued f') = add_mset u (mset (queued f)) \<and>
     lastAccessTime f' = lastAccessTime f \<and> politenessDelay f' = politenessDelay f"
proof -
  let ?g = "\<lambda>(p, queue). map fst queue"
  from addURL_split [OF assms, of u] obtain queue before after where
    q: "map_of (frontQueues f) (landing_tier (priority u)) = Some queue" and
    s: "queue = before @ after" and
    a: "addURL u f = Some (f\<lparr>frontQueues :=
        AList.update (landing_tier (priority u)) (before @ [(u, priority u)] @ after)
          (frontQueues f)\<rparr>)" and
    ok: "frontier_ok (f\<lparr>frontQueues :=
        AList.update (landing_tier (priority u)) (before @ [(u, priority u)] @ after)
          (frontQueues f)\<rparr>)"
    by blast
  have "mset (concat (map ?g (AList.update (landing_tier (priority u))
          (before @ [(u, priority u)] @ after) (frontQueues f)))) =
        add_mset u (mset (concat (map ?g (frontQueues f))))"
    using mset_concat_update [of ?g "landing_tier (priority u)"
        "before @ [(u, priority u)] @ after" "frontQueues f"] q s
    by simp
  with a ok show ?thesis by (simp add: queued_def)
qed

lemma download_Inr:
  "download lib w u r = Inr res \<Longrightarrow> res_url res = u \<and> links res = []"
  by (auto simp: download_def split: option.splits if_splits http_result.splits)

lemma isValidURL_parses: "isValidURL lib flt u \<Longrightarrow> \<exists>urlObj. parseURL lib u = Some urlObj"
  by (cases "parseURL lib u") (simp_all add: isValidURL_def)

lemma add_links_effect:
  "frontier_ok f \<Longrightarrow>
   \<exists>f'. add_links lib w flt us u i ls f = Inr f' \<and> frontier_ok f' \<and>
     mset (queued f') =
       mset (queued f) + mset (map (child_of lib w u) (accepted_links lib flt us i ls)) \<and>
     lastAccessTime f' = lastAccessTime f \<and> politenessDelay f' = politenessDelay f"
proof (induction ls arbitrary: i f)
  case Nil
  then show ?case by (simp add: accepted_links_def)
next
  case (Cons l ls)
  show ?case
  proof (cases "isValidURL lib flt l \<and> \<not> isURLSeen l us")
    case False
    then have "accepted_links lib flt us i (l # ls) = accepted_links lib flt us (Suc i) ls"
      by (auto simp: accepted_links_def)
    with False Cons.IH [OF Cons.prems, of "Suc i"] show ?thesis by auto
  next
    case True
    then obtain urlObj where p: "parseURL lib l = Some urlObj"
      using isValidURL_parses by blast
    let ?n = "\<lparr>url = l, priority = max 0 (priority u - 1), depth = depth u + 1,
        host = hostname urlObj, timestamp = stamp w i\<rparr>"
    have n: "?n = child_of lib w u (i, l)" by (simp add: child_of_def hostname_of_def p)
    from addURL_effect [OF Cons.prems, of ?n] obtain f1 where
      a: "addURL ?n f = Some f1" "frontier_ok f1"
         "mset (queued f1) = add_mset ?n (mset (queued f))"
         "lastAccessTime f1 = lastAccessTime f" "politenessDelay f1 = politenessDelay f"
      by blast
    from Cons.IH [OF a(2), of "Suc i"] obtain f' where
      b: "add_links lib w flt us u (Suc i) ls f1 = Inr f'" "frontier_ok f'"
         "mset (queued f') =
            mset (queued f1) + mset (map (child_of lib w u) (accepted_links lib flt us (Suc i) ls))"
         "lastAccessTime f' = lastAccessTime f1" "politenessDelay f' = politenessDelay f1"
      by blast
    from True have acc: "accepted_links lib flt us i (l # ls) =
        (i, l) # accepted_links lib flt us (Suc i) ls"
      by (simp add: accepted_links_def)
    from True p a b acc n show ?thesis by simp
  qed
qed

lemma step_NotReady:
  "getNextURL (date_now w) (urlFrontier c) = Some (None, f1) \<Longrightarrow>
   crawl_step lib w c = Some (NotReady, c\<lparr>urlFrontier := f1\<rparr>)"
  by (simp add: crawl_step_def)

lemma step_Discarded:
  "getNextURL (date_now w) (urlFrontier c) = Some (Some u, f1) \<Longrightarrow>
   isURLSeen (url u) (urlStorage c) \<or> depth u > maxDepth (config c) \<Longrightarrow>
   crawl_step lib w c = Some (Discarded u, c\<lparr>urlFrontier := f1\<rparr>)"
  by (auto simp: crawl_step_def)

lemma step_Failed:
  "getNextURL (date_now w) (urlFrontier c) = Some (Some u, f1) \<Longrightarrow>
   \<not> isURLSeen (url u) (urlStorage c) \<Longrightarrow> \<not> depth u > maxDepth (config c) \<Longrightarrow>
   download lib w (url u) (respectRobots (config c)) = Inl e \<Longrightarrow>
   crawl_step lib w c =
     Some (Failed u e,
       c\<lparr>urlFrontier := f1, urlStorage := markAsVisited (url u) (urlStorage c)\<rparr>)"
  by (simp add: crawl_step_def)

lemma step_Duplicate:
  "getNextURL (date_now w) (urlFrontier c) = Some (Some u, f1) \<Longrightarrow>
   \<not> isURLSeen (url u) (urlStorage c) \<Longrightarrow> \<not> depth u > maxDepth (config c) \<Longrightarrow>
   download lib w (url u) (respectRobots (config c)) = Inr res \<Longrightarrow>
   isContentSeen (hash res) (contentStorage c) \<Longrightarrow>
   crawl_step lib w c =
     Some (DuplicateContent u,
       c\<lparr>urlFrontier := f1, urlStorage := markAsVisited (url u) (urlStorage c)\<rparr>)"
  by (simp add: crawl_step_def)

lemma step_Crawled:
  "getNextURL (date_now w) (urlFrontier c) = Some (Some u, f1) \<Longrightarrow>
   \<not> isURLSeen (url u) (urlStorage c) \<Longrightarrow> \<not> depth u > maxDepth (config c) \<Longrightarrow>
   download lib w (url u) (respectRobots (config c)) = Inr res \<Longrightarrow>
   \<not> isContentSeen (hash res) (contentStorage c) \<Longrightarrow>
   add_links lib w (urlFilter c) (markAsVisited (url u) (urlStorage c)) u 0
     (parseHTML lib (content res) (url u)) f1 = Inr f2 \<Longrightarrow>
   crawl_step lib w c =
     Some (Crawled u (res\<lparr>links := parseHTML lib (content res) (url u)\<rparr>),
       c\<lparr>urlFrontier := f2,
         contentStorage := store (res\<lparr>links := parseHTML lib (content res) (url u)\<rparr>)
           (contentStorage c),
         urlStorage := markAsVisited (url u) (urlStorage c),
         crawledCount := crawledCount c + 1\<rparr>)"
  by (simp add: crawl_step_def Let_def)

lemma crawler_ok_frontier:
  "crawler_ok c \<Longrightarrow> frontier_ok f \<Longrightarrow> crawler_ok (c\<lparr>urlFrontier := f\<rparr>)"
  by (simp add: crawler_ok_def)

lemma crawler_ok_visit:
  "crawler_ok c \<Longrightarrow> crawler_ok (c\<lparr>urlStorage := markAsVisited u (urlStorage c)\<rparr>)"
  by (auto simp: crawler_ok_def markAsVisited_def set_add_def)

lemma crawler_ok_store:
  assumes ok: "crawler_ok c"
    and new: "\<not> isURLSeen (res_url r) (urlStorage c)"
    and fresh: "\<not> isContentSeen (hash r) (contentStorage c)"
  shows "crawler_ok (c\<lparr>contentStorage := store r (contentStorage c),
           urlStorage := markAsVisited (res_url r) (urlStorage c),
           crawledCount := crawledCount c + 1\<rparr>)"
proof -
  let ?cs = "contentStorage c"
  from ok new have absent: "res_url r \<notin> fst ` set (storage ?cs)"
    by (auto simp: crawler_ok_def isURLSeen_def)
  have st: "storage (store r ?cs) = storage ?cs @ [(res_url r, r)]"
    by (simp add: store_def update_absent [OF absent])
  have sh: "seenHashes (store r ?cs) = seenHashes ?cs @ [hash r]"
    using fresh by (simp add: store_def set_add_def isContentSeen_def)
  from ok have "storage_ok ?cs" by (simp add: crawler_ok_def)
  then have a: "storage_ok (store r ?cs)" by (rule storage_ok_store)
  from ok fresh have b: "distinct (map hash (getAllResults (store r ?cs)))"
    by (auto simp: crawler_ok_def getAllResults_def st isContentSeen_def)
  from ok have c: "set (map hash (getAllResults (store r ?cs))) \<subseteq> set (seenHashes (store r ?cs))"
    by (auto simp: crawler_ok_def getAllResults_def st sh)
  from ok new have d: "distinct (visitedUrls (markAsVisited (res_url r) (urlStorage c)))"
    by (simp add: crawler_ok_def markAsVisited_def set_add_def isURLSeen_def)
  from ok have e: "set (map fst (storage (store r ?cs))) \<subseteq>
      set (visitedUrls (markAsVisited (res_url r) (urlStorage c)))"
    by (auto simp: crawler_ok_def st markAsVisited_def set_add_def)
  from ok have f: "crawledCount c + 1 = int (length (storage (store r ?cs)))"
    by (simp add: crawler_ok_def st)
  from ok a b c d e f show ?thesis by (simp add: crawler_ok_def)
qed

lemma crawl_step_cases [consumes 1, case_names NotReady Discarded Failed Duplicate Crawled]:
  assumes ok: "crawler_ok c"
  obtains
    (NotReady) f1 where
      "getNextURL (date_now w) (urlFrontier c) = Some (None, f1)"
      "crawl_step lib w c = Some (NotReady, c\<lparr>urlFrontier := f1\<rparr>)"
      "crawler_ok (c\<lparr>urlFrontier := f1\<rparr>)"
  | (Discarded) u f1 where
      "getNextURL (date_now w) (urlFrontier c) = Some (Some u, f1)"
      "isURLSeen (url u) (urlStorage c) \<or> depth u > maxDepth (config c)"
      "crawl_step lib w c = Some (Discarded u, c\<lparr>urlFrontier := f1\<rparr>)"
      "crawler_ok (c\<lparr>urlFrontier := f1\<rparr>)"
  | (Failed) u f1 e where
      "getNextURL (date_now w) (urlFrontier c) = Some (Some u, f1)"
      "\<not> isURLSeen (url u) (urlStorage c)" "\<not> depth u > maxDepth (config c)"
      "download lib w (url u) (respectRobots (config c)) = Inl e"
      "crawl_step lib w c = Some (Failed u e,
         c\<lparr>urlFrontier := f1, urlStorage := markAsVisited (url u) (urlStorage c)\<rparr>)"
      "crawler_ok (c\<lparr>urlFrontier := f1, urlStorage := markAsVisited (url u) (urlStorage c)\<rparr>)"
  | (Duplicate) u f1 res where
      "getNextURL (date_now w) (urlFrontier c) = Some (Some u, f1)"
      "\<not> isURLSeen (url u) (urlStorage c)" "\<not> depth u > maxDepth (config c)"
      "download lib w (url u) (respectRobots (config c)) = Inr res"
      "isContentSeen (hash res) (contentStorage c)"
      "crawl_step lib w c = Some (DuplicateContent u,
         c\<lparr>urlFrontier := f1, urlStorage := markAsVisited (url u) (urlStorage c)\<rparr>)"
      "crawler_ok (c\<lparr>urlFrontier := f1, urlStorage := markAsVisited (url u) (urlStorage c)\<rparr>)"
  | (Crawled) u f1 res f2 where
      "getNextURL (date_now w) (urlFrontier c) = Some (Some u, f1)"
      "\<not> isURLSeen (url u) (urlStorage c)" "\<not> depth u > maxDepth (config c)"
      "download lib w (url u) (respectRobots (config c)) = Inr res"
      "\<not> isContentSeen (hash res) (contentStorage c)"
      "add_links lib w (urlFilter c) (markAsVisited (url u) (urlStorage c)) u 0
         (parseHTML lib (content res) (url u)) f1 = Inr f2"
      "mset (queued f2) = mset (queued f1) +
         mset (map (child_of lib w u)
           (accepted_links lib (urlFilter c) (markAsVisited (url u) (urlStorage c)) 0
             (parseHTML lib (content res) (url u))))"
      "crawl_step lib w c =
         Some (Crawled u (res\<lparr>links := parseHTML lib (content res) (url u)\<rparr>),
           c\<lparr>urlFrontier := f2,
             contentStorage := store (res\<lparr>links := parseHTML lib (content res) (url u)\<rparr>)
               (contentStorage c),
             urlStorage := markAsVisited (url u) (urlStorage c),
             crawledCount := crawledCount c + 1\<rparr>)"
      "crawler_ok (c\<lparr>urlFrontier := f2,
             contentStorage := store (res\<lparr>links := parseHTML lib (content res) (url u)\<rparr>)
               (contentStorage c),
             urlStorage := markAsVisited (url u) (urlStorage c),
             crawledCount := crawledCount c + 1\<rparr>)"
proof -
  from ok have fok: "frontier_ok (urlFrontier c)" by (simp add: crawler_ok_def)
  obtain r f1 where d: "dispatchNext (date_now w) (urlFrontier c) = (r, f1)"
    by (cases "dispatchNext (date_now w) (urlFrontier c)")
  have g: "getNextURL (date_now w) (urlFrontier c) = Some (r, f1)"
    using getNextURL_eq [OF fok, of "date_now w"] d by simp
  have f1ok: "frontier_ok f1" using frontier_ok_dispatchNext [OF fok, of "date_now w"] d by simp
  have c1ok: "crawler_ok (c\<lparr>urlFrontier := f1\<rparr>)" by (rule crawler_ok_frontier [OF ok f1ok])
  show ?thesis
  proof (cases r)
    case None
    with g have gn: "getNextURL (date_now w) (urlFrontier c) = Some (None, f1)" by simp
    from NotReady [OF gn step_NotReady [OF gn] c1ok] show ?thesis .
  next
    case (Some u)
    with g have gu: "getNextURL (date_now w) (urlFrontier c) = Some (Some u, f1)" by simp
    show ?thesis
    proof (cases "isURLSeen (url u) (urlStorage c) \<or> depth u > maxDepth (config c)")
      case True
      from Discarded [OF gu True step_Discarded [OF gu True] c1ok] show ?thesis .
    next
      case False
      then have ns: "\<not> isURLSeen (url u) (urlStorage c)" and nd: "\<not> depth u > maxDepth (config c)"
        by simp_all
      have c2ok: "crawler_ok (c\<lparr>urlFrontier := f1,
          urlStorage := markAsVisited (url u) (urlStorage c)\<rparr>)"
        using crawler_ok_visit [OF c1ok, of "url u"] by simp
      show ?thesis
      proof (cases "download lib w (url u) (respectRobots (config c))")
        case (Inl e)
        from Failed [OF gu ns nd Inl step_Failed [OF gu ns nd Inl] c2ok] show ?thesis .
      next
        case (Inr res)
        show ?thesis
        proof (cases "isContentSeen (hash res) (contentStorage c)")
          case True
          from Duplicate [OF gu ns nd Inr True step_Duplicate [OF gu ns nd Inr True] c2ok]
          show ?thesis .
        next
          case False
          let ?res = "res\<lparr>links := parseHTML lib (content res) (url u)\<rparr>"
          from add_links_effect [OF f1ok] obtain f2 where
            al: "add_links lib w (urlFilter c) (markAsVisited (url u) (urlStorage c)) u 0
               (parseHTML lib (content res) (url u)) f1 = Inr f2" and f2ok: "frontier_ok f2" and
            mq: "mset (queued f2) = mset (queued f1) +
               mset (map (child_of lib w u)
                 (accepted_links lib (urlFilter c) (markAsVisited (url u) (urlStorage c)) 0
                   (parseHTML lib (content res) (url u))))"
            by blast
          from download_Inr [OF Inr] have ru: "res_url ?res = url u" by simp
          have "crawler_ok (c\<lparr>contentStorage := store ?res (contentStorage c),
              urlStorage := markAsVisited (res_url ?res) (urlStorage c),
              crawledCount := crawledCount c + 1\<rparr>)"
            by (rule crawler_ok_store [OF ok]) (use ns False ru in simp_all)
          then have "crawler_ok (c\<lparr>contentStorage := store ?res (contentStorage c),
              urlStorage := markAsVisited (url u) (urlStorage c),
              crawledCount := crawledCount c + 1\<rparr>)"
            using ru by simp
          with f2ok
          have c3ok: "crawler_ok (c\<lparr>urlFrontier := f2,
              contentStorage := store ?res (contentStorage c),
              urlStorage := markAsVisited (url u) (urlStorage c),
              crawledCount := crawledCount c + 1\<rparr>)"
            by (simp add: crawler_ok_def)
          from Crawled [OF gu ns nd Inr False al mq step_Crawled [OF gu ns nd Inr False al] c3ok]
          show ?thesis .
        qed
      qed
    qed
  qed
qed

lemma crawl_step_ok:
  assumes ok: "crawler_ok c"
  shows "\<exists>out c'. crawl_step lib w c = Some (out, c') \<and> crawler_ok c' \<and>
     (\<forall>u. out \<noteq> LinkError u) \<and> config c' = config c \<and> urlFilter c' = urlFilter c \<and>
     set (visitedUrls (urlStorage c)) \<subseteq> set (visitedUrls (urlStorage c'))"
  using ok by (cases rule: crawl_step_cases [where w = w and lib = lib])
    (auto simp: markAsVisited_def set_add_def)

lemma crawler_ok_new: "crawler_ok (WebCrawler_new cfg)"
  by (simp add: crawler_ok_def WebCrawler_new_def frontier_ok_new storage_ok_def
      ContentStorage_new_def URLStorage_new_def getAllResults_def)

lemma add_seeds_ok:
  "crawler_ok c \<Longrightarrow>
   \<exists>c0. add_seeds lib seed_stamp i us c = Some c0 \<and> crawler_ok c0 \<and> config c0 = config c"
proof (induction us arbitrary: i c)
  case Nil
  then show ?case by simp
next
  case (Cons u us)
  show ?case
  proof (cases "isValidURL lib (urlFilter c) u")
    case False
    with Cons.IH [OF Cons.prems, of "Suc i"] show ?thesis by simp
  next
    case True
    then obtain urlObj where p: "parseURL lib u = Some urlObj"
      using isValidURL_parses by blast
    from Cons.prems have "frontier_ok (urlFrontier c)" by (simp add: crawler_ok_def)
    from addURL_effect [OF this] obtain f' where
      a: "addURL \<lparr>url = u, priority = 4, depth = 0, host = hostname urlObj,
             timestamp = seed_stamp i\<rparr> (urlFrontier c) = Some f'" "frontier_ok f'"
      by blast
    from Cons.IH [OF crawler_ok_frontier [OF Cons.prems a(2)], of "Suc i"] True p a(1)
    show ?thesis by simp
  qed
qed

lemma crawl_loop_ok:
  "crawler_ok c \<Longrightarrow>
   (case crawl_loop lib ws n i c tr of
      Running c' tr' \<Rightarrow> crawler_ok c' \<and> config c' = config c
    | Uncaught \<Rightarrow> False
    | Returned c' tr' \<Rightarrow> crawler_ok c' \<and> config c' = config c \<and> \<not> loop_condition c')"
proof (induction n arbitrary: i c tr)
  case 0
  then show ?case by simp
next
  case (Suc n)
  show ?case
  proof (cases "loop_condition c")
    case False
    with Suc.prems show ?thesis by simp
  next
    case True
    from crawl_step_ok [OF Suc.prems, of lib "ws i"] obtain out c' where
      s: "crawl_step lib (ws i) c = Some (out, c')" "crawler_ok c'" "config c' = config c"
      by blast
    from Suc.IH [OF s(2), of "Suc i" "out # tr"] True s(1) s(3) show ?thesis
      by (auto split: loop_end.splits)
  qed
qed

lemma crawl_ok:
  "case crawl lib seed_stamp ws n seedUrls (WebCrawler_new cfg) of
      Running c tr \<Rightarrow> crawler_ok c \<and> config c = cfg
    | Uncaught \<Rightarrow> False
    | Returned c tr \<Rightarrow> crawler_ok c \<and> config c = cfg \<and> \<not> loop_condition c"
proof -
  from add_seeds_ok [OF crawler_ok_new, of lib seed_stamp 0 seedUrls cfg] obtain c0 where
    s: "add_seeds lib seed_stamp 0 seedUrls (WebCrawler_new cfg) = Some c0" "crawler_ok c0"
       "config c0 = cfg"
    by (auto simp: WebCrawler_new_def)
  from crawl_loop_ok [OF s(2), of lib ws n 0 "[]"] s(1) s(3) show ?thesis
    by (auto simp: crawl_def split: loop_end.splits)
qed

subsection \<open>What an iteration does with the dispatched URL\<close>

lemma toy_state_ok: "crawler_ok (toy_state p d n)"
  using crawl_ok [where lib = toy_lib and seed_stamp = "\<lambda>i. 0" and ws = toy_world and n = n
      and seedUrls = "[''http://a/'']" and cfg = "toy_config p d"]
  by (auto simp: toy_state_def toy_run_def split: loop_end.splits)

lemma count_list_distinct: "distinct xs \<Longrightarrow> x \<in> set xs \<Longrightarrow> count_list xs x = 1"
  by (induction xs) auto

lemma visited_after_mark:
  "distinct (visitedUrls us) \<Longrightarrow> count_list (visitedUrls (markAsVisited u us)) u = 1"
  by (rule count_list_distinct) (auto simp: markAsVisited_def set_add_def)

text \<open>
  C4 (as amended).  In a crawler satisfying the invariant, the iteration that consumes a
  URL returned by \<open>getNextURL\<close> does not raise, and when the depth of the URL is at most
  \<open>maxDepth\<close> the URL is in the visited set exactly once at its end, whatever the outcome
  (stored, duplicate content, download failure, or discarded as already visited).  A URL
  over the depth limit is discarded and the visited set is left as it was.
\<close>

theorem dispatched_url_visited:
  assumes "crawler_ok c"
    and "getNextURL (date_now w) (urlFrontier c) = Some (Some u, f1)"
  shows "\<exists>out c'. crawl_step lib w c = Some (out, c') \<and>
     (depth u \<le> maxDepth (config c) \<longrightarrow>
        count_list (visitedUrls (urlStorage c')) (url u) = 1) \<and>
     (depth u > maxDepth (config c) \<longrightarrow> out = Discarded u \<and> urlStorage c' = urlStorage c)"
proof -
  from assms(1) have d: "distinct (visitedUrls (urlStorage c))" by (simp add: crawler_ok_def)
  from assms(1) show ?thesis
  proof (cases rule: crawl_step_cases [where w = w and lib = lib])
    case (NotReady f1')
    with assms(2) show ?thesis by simp
  next
    case (Discarded u' f1')
    with assms(2) have "u' = u" by simp
    with Discarded d show ?thesis
      by (auto simp: isURLSeen_def count_list_distinct)
  next
    case (Failed u' f1' e)
    with assms(2) have "u' = u" by simp
    with Failed(2,3,5) visited_after_mark [OF d, of "url u"] show ?thesis by simp
  next
    case (Duplicate u' f1' res)
    with assms(2) have "u' = u" by simp
    with Duplicate(2,3,6) visited_after_mark [OF d, of "url u"] show ?thesis by simp
  next
    case (Crawled u' f1' res f2)
    with assms(2) have "u' = u" by simp
    with Crawled(2,3,8) visited_after_mark [OF d, of "url u"] show ?thesis by simp
  qed
qed

text \<open>
  C4 as stated fails for the discard on depth: with \<open>maxDepth = 0\<close> the second iteration
  of the crawl of the small site is handed \<open>http://a/b\<close> (depth 1) and discards it, and at
  the end of that iteration the visited set holds the seed only.
\<close>

theorem over_depth_not_visited_counterexample:
  "map_option fst (getNextURL 2000 (urlFrontier (toy_state 10 0 1))) = Some (Some toy_B) \<and>
   outcomes_of (toy_run 10 0 2) = [Discarded toy_B, Crawled toy_A toy_page_A] \<and>
   visited_of (toy_run 10 0 2) = [''http://a/''] \<and> url toy_B = ''http://a/b''"
  by code_simp

theorem dispatched_url_visited_witness:
  "crawler_ok (toy_state 10 5 1) \<and>
   getNextURL (date_now (toy_world 1)) (urlFrontier (toy_state 10 5 1)) =
     Some (Some toy_B, dispatched 2000 (toy_state 10 5 1)) \<and>
   depth toy_B \<le> maxDepth (config (toy_state 10 5 1)) \<and>
   (\<exists>out c'. crawl_step toy_lib (toy_world 1) (toy_state 10 5 1) = Some (out, c') \<and>
      count_list (visitedUrls (urlStorage c')) (url toy_B) = 1)"
proof -
  have g: "getNextURL (date_now (toy_world 1)) (urlFrontier (toy_state 10 5 1)) =
     Some (Some toy_B, dispatched 2000 (toy_state 10 5 1))"
    by code_simp
  have d: "depth toy_B \<le> maxDepth (config (toy_state 10 5 1))" by code_simp
  from dispatched_url_visited [OF toy_state_ok g, of toy_lib] d toy_state_ok g
  show ?thesis by blast
qed

text \<open>
  C5 (as amended).  In a crawler satisfying the invariant an iteration does not raise and
  leaves every URL at most once in the visited set; and when \<open>getNextURL\<close> returns a URL
  that is already in the visited set, the iteration discards it: nothing is downloaded,
  and nothing but the frontier changes.
\<close>

theorem visited_url_is_discarded:
  assumes "crawler_ok c"
  shows "\<exists>out c'. crawl_step lib w c = Some (out, c') \<and>
     distinct (visitedUrls (urlStorage c')) \<and>
     (\<forall>u f1. getNextURL (date_now w) (urlFrontier c) = Some (Some u, f1) \<and>
        isURLSeen (url u) (urlStorage c) \<longrightarrow>
        out = Discarded u \<and> c' = c\<lparr>urlFrontier := f1\<rparr>)"
proof -
  from crawl_step_ok [OF assms, of lib w] obtain out c' where
    s: "crawl_step lib w c = Some (out, c')" "crawler_ok c'"
    by blast
  have "out = Discarded u \<and> c' = c\<lparr>urlFrontier := f1\<rparr>"
    if "getNextURL (date_now w) (urlFrontier c) = Some (Some u, f1)"
      and "isURLSeen (url u) (urlStorage c)" for u f1
    using step_Discarded [OF that(1), of lib] that(2) s(1) by simp
  with s show ?thesis by (auto simp: crawler_ok_def)
qed

text \<open>
  C5 as stated fails: the page of the seed links twice to \<open>http://a/b\<close>, so after the
  first iteration tier 3 holds that PendingURL twice; after the second iteration the URL
  is in the visited set, and \<open>getNextURL\<close> returns it again in the third.
\<close>

theorem dispatch_of_visited_counterexample:
  "tier_urls 3 (urlFrontier (toy_state 10 5 1)) = [toy_B, toy_B, toy_C, toy_D] \<and>
   visited_of (toy_run 10 5 2) = [''http://a/'', ''http://a/b''] \<and>
   map_option fst (getNextURL 3000 (urlFrontier (toy_state 10 5 2))) = Some (Some toy_B) \<and>
   url toy_B = ''http://a/b''"
  by code_simp

theorem visited_url_is_discarded_witness:
  "crawler_ok (toy_state 10 5 2) \<and>
   getNextURL (date_now (toy_world 2)) (urlFrontier (toy_state 10 5 2)) =
     Some (Some toy_B, dispatched 3000 (toy_state 10 5 2)) \<and>
   isURLSeen (url toy_B) (urlStorage (toy_state 10 5 2)) \<and>
   crawl_step toy_lib (toy_world 2) (toy_state 10 5 2) =
     Some (Discarded toy_B, (toy_state 10 5 2)\<lparr>urlFrontier := dispatched 3000 (toy_state 10 5 2)\<rparr>)"
proof -
  have g: "getNextURL (date_now (toy_world 2)) (urlFrontier (toy_state 10 5 2)) =
     Some (Some toy_B, dispatched 3000 (toy_state 10 5 2))"
    by code_simp
  have v: "isURLSeen (url toy_B) (urlStorage (toy_state 10 5 2))" by code_simp
  from visited_url_is_discarded [OF toy_state_ok, of toy_lib "toy_world 2" 10 5 2] g v toy_state_ok
  show ?thesis by auto
qed

lemma fetched_depth:
  assumes "crawler_ok c" and "crawl_step lib w c = Some (out, c')" and "fetched out = Some u"
  shows "depth u \<le> maxDepth (config c) \<and> \<not> isURLSeen (url u) (urlStorage c) \<and>
     isURLSeen (url u) (urlStorage c')"
  using assms(1)
  by (cases rule: crawl_step_cases [where w = w and lib = lib])
    (use assms(2,3) in \<open>auto simp: isURLSeen_def markAsVisited_def set_add_def\<close>)

lemma crawl_loop_stops:
  "\<not> loop_condition c \<Longrightarrow> crawl_loop lib ws n i c tr = Returned c tr"
  by (cases n) simp_all

lemma crawl_step_count:
  assumes "crawler_ok c" and "crawl_step lib w c = Some (out, c')"
  shows "crawledCount c' = crawledCount c + (if stored out then 1 else 0) \<and>
     config c' = config c"
  using assms(1)
  by (cases rule: crawl_step_cases [where w = w and lib = lib]) (use assms(2) in auto)

lemma budget_inv_step:
  assumes ok: "crawler_ok c" and lc: "loop_condition c" and b: "budget_inv c tr"
    and s: "crawl_step lib w c = Some (out, c')"
  shows "budget_inv c' (out # tr)"
proof -
  from lc have lt: "crawledCount c < maxPages (config c)" by (simp add: loop_condition_def)
  from crawl_step_count [OF ok s]
  have c: "crawledCount c' = crawledCount c + (if stored out then 1 else 0)"
    and cfg: "config c' = config c" by simp_all
  from b have n: "crawledCount c = int (length (filter stored tr))"
    by (simp add: budget_inv_def)
  show ?thesis
  proof (cases "stored out")
    case True
    with c cfg n lt show ?thesis by (simp add: budget_inv_def)
  next
    case False
    with c cfg n lt show ?thesis by (simp add: budget_inv_def)
  qed
qed

lemma crawl_loop_budget:
  "crawler_ok c \<Longrightarrow> budget_inv c tr \<Longrightarrow>
   (case crawl_loop lib ws n i c tr of
      Running c' tr' \<Rightarrow>
        crawler_ok c' \<and> config c' = config c \<and> budget_inv c' tr' \<and> loop_condition c'
    | Uncaught \<Rightarrow> False
    | Returned c' tr' \<Rightarrow>
        crawler_ok c' \<and> config c' = config c \<and> budget_inv c' tr' \<and> \<not> loop_condition c')"
proof (induction n arbitrary: i c tr)
  case 0
  then show ?case by simp
next
  case (Suc n)
  show ?case
  proof (cases "loop_condition c")
    case False
    with Suc.prems show ?thesis by simp
  next
    case True
    from crawl_step_ok [OF Suc.prems(1), of lib "ws i"] obtain out c' where
      s: "crawl_step lib (ws i) c = Some (out, c')" "crawler_ok c'" "config c' = config c"
      by blast
    from budget_inv_step [OF Suc.prems(1) True Suc.prems(2) s(1)]
    have b: "budget_inv c' (out # tr)" .
    from Suc.IH [OF s(2) b, of "Suc i"] True s(1) s(3) show ?thesis
      by (auto split: loop_end.splits)
  qed
qed

lemma add_seeds_count:
  "add_seeds lib seed_stamp i us c = Some c0 \<Longrightarrow> crawledCount c0 = crawledCount c"
proof (induction us arbitrary: i c)
  case Nil
  then show ?case by simp
next
  case (Cons u us)
  show ?case
  proof (cases "isValidURL lib (urlFilter c) u")
    case False
    with Cons.prems have "add_seeds lib seed_stamp (Suc i) us c = Some c0" by simp
    from Cons.IH [OF this] show ?thesis .
  next
    case True
    with Cons.prems obtain urlObj f' where
      "add_seeds lib seed_stamp (Suc i) us (c\<lparr>urlFrontier := f'\<rparr>) = Some c0"
      by (auto split: option.splits)
    from Cons.IH [OF this] show ?thesis by simp
  qed
qed

lemma crawl_budget:
  "case crawl lib seed_stamp ws n seedUrls (WebCrawler_new cfg) of
      Running c tr \<Rightarrow> crawler_ok c \<and> config c = cfg \<and> budget_inv c tr \<and> loop_condition c
    | Uncaught \<Rightarrow> False
    | Returned c tr \<Rightarrow> crawler_ok c \<and> config c = cfg \<and> budget_inv c tr \<and> \<not> loop_condition c"
proof -
  from add_seeds_ok [OF crawler_ok_new, of lib seed_stamp 0 seedUrls cfg] obtain c0 where
    s: "add_seeds lib seed_stamp 0 seedUrls (WebCrawler_new cfg) = Some c0" "crawler_ok c0"
       "config c0 = cfg"
    by (auto simp: WebCrawler_new_def)
  from add_seeds_count [OF s(1)] have "crawledCount c0 = 0" by (simp add: WebCrawler_new_def)
  then have b: "budget_inv c0 []" by (simp add: budget_inv_def)
  from crawl_loop_budget [OF s(2) b, of lib ws n 0] s(1) s(3) show ?thesis
    by (auto simp: crawl_def split: loop_end.splits)
qed

text \<open>
  C6.  In a crawler satisfying the invariant: a URL returned by \<open>getNextURL\<close> whose depth
  is \<open>maxDepth + 1\<close> is discarded, and only the frontier changes; whenever an iteration
  calls the downloader, the depth of the URL is at most \<open>maxDepth\<close>; \<open>crawledCount\<close> is
  the number of stored records; once it has reached \<open>maxPages\<close> the loop returns
  without another iteration, whatever the frontier holds; and an iteration raises
  \<open>crawledCount\<close> and the number of stored records by one when it stores a page and
  leaves both alone otherwise.  In every run of \<open>crawl\<close> on a fresh crawler the number of
  stored records is the number of iterations that stored a page; while the loop runs it is
  below \<open>maxPages\<close>; when \<open>crawl\<close> returns it is at most \<open>maxPages\<close> (0 when that is
  negative), the frontier is empty or the number has reached \<open>maxPages\<close>, and in the
  latter case the last iteration, if there was one, is the one that stored a page.
\<close>

theorem depth_and_budget_limits:
  assumes "crawler_ok c"
  shows "(\<forall>u f1. getNextURL (date_now w) (urlFrontier c) = Some (Some u, f1) \<and>
        depth u = maxDepth (config c) + 1 \<longrightarrow>
        crawl_step lib w c = Some (Discarded u, c\<lparr>urlFrontier := f1\<rparr>)) \<and>
     (\<forall>out c' u. crawl_step lib w c = Some (out, c') \<and> fetched out = Some u \<longrightarrow>
        depth u \<le> maxDepth (config c)) \<and>
     crawledCount c = int (length (getAllResults (contentStorage c))) \<and>
     (crawledCount c \<ge> maxPages (config c) \<longrightarrow> crawl_loop lib ws n i c tr = Returned c tr) \<and>
     (\<forall>out c'. crawl_step lib w c = Some (out, c') \<longrightarrow>
        crawledCount c' = crawledCount c + (if stored out then 1 else 0) \<and>
        int (length (getAllResults (contentStorage c'))) =
          int (length (getAllResults (contentStorage c))) + (if stored out then 1 else 0) \<and>
        maxPages (config c') = maxPages (config c)) \<and>
     (case crawl lib seed_stamp ws fuel seedUrls (WebCrawler_new cfg) of
        Running c' tr' \<Rightarrow>
          length (getAllResults (contentStorage c')) = length (filter stored tr') \<and>
          int (length (getAllResults (contentStorage c'))) < maxPages cfg \<and>
          \<not> isEmpty (urlFrontier c')
      | Uncaught \<Rightarrow> False
      | Returned c' tr' \<Rightarrow>
          length (getAllResults (contentStorage c')) = length (filter stored tr') \<and>
          int (length (getAllResults (contentStorage c'))) \<le> max 0 (maxPages cfg) \<and>
          (isEmpty (urlFrontier c') \<or>
             maxPages cfg \<le> int (length (getAllResults (contentStorage c')))) \<and>
          (maxPages cfg \<le> int (length (getAllResults (contentStorage c'))) \<longrightarrow>
             (case tr' of [] \<Rightarrow> True | out # rest \<Rightarrow> stored out)))"
proof -
  have a: "crawl_step lib w c = Some (Discarded u, c\<lparr>urlFrontier := f1\<rparr>)"
    if "getNextURL (date_now w) (urlFrontier c) = Some (Some u, f1)"
      and "depth u = maxDepth (config c) + 1" for u f1
    using step_Discarded [OF that(1), of lib] that(2) by simp
  have b: "depth u \<le> maxDepth (config c)"
    if "crawl_step lib w c = Some (out, c')" and "fetched out = Some u" for out c' u
    using fetched_depth [OF assms that] by simp
  from assms have c: "crawledCount c = int (length (getAllResults (contentStorage c)))"
    by (simp add: crawler_ok_def getAllResults_def)
  have d: "crawl_loop lib ws n i c tr = Returned c tr" if "crawledCount c \<ge> maxPages (config c)"
    by (rule crawl_loop_stops) (use that in \<open>simp add: loop_condition_def\<close>)
  have e: "crawledCount c' = crawledCount c + (if stored out then 1 else 0) \<and>
        int (length (getAllResults (contentStorage c'))) =
          int (length (getAllResults (contentStorage c))) + (if stored out then 1 else 0) \<and>
        maxPages (config c') = maxPages (config c)"
    if s: "crawl_step lib w c = Some (out, c')" for out c'
  proof -
    from crawl_step_ok [OF assms, of lib w] s have "crawler_ok c'" by auto
    then have "crawledCount c' = int (length (getAllResults (contentStorage c')))"
      by (simp add: crawler_ok_def getAllResults_def)
    with crawl_step_count [OF assms s] c show ?thesis by simp
  qed
  have f: "case crawl lib seed_stamp ws fuel seedUrls (WebCrawler_new cfg) of
        Running c' tr' \<Rightarrow>
          length (getAllResults (contentStorage c')) = length (filter stored tr') \<and>
          int (length (getAllResults (contentStorage c'))) < maxPages cfg \<and>
          \<not> isEmpty (urlFrontier c')
      | Uncaught \<Rightarrow> False
      | Returned c' tr' \<Rightarrow>
          length (getAllResults (contentStorage c')) = length (filter stored tr') \<and>
          int (length (getAllResults (contentStorage c'))) \<le> max 0 (maxPages cfg) \<and>
          (isEmpty (urlFrontier c') \<or>
             maxPages cfg \<le> int (length (getAllResults (contentStorage c')))) \<and>
          (maxPages cfg \<le> int (length (getAllResults (contentStorage c'))) \<longrightarrow>
             (case tr' of [] \<Rightarrow> True | out # rest \<Rightarrow> stored out))"
    using crawl_budget [where lib = lib and seed_stamp = seed_stamp and ws = ws and n = fuel
        and seedUrls = seedUrls and cfg = cfg]
    by (auto simp: budget_inv_def crawler_ok_def getAllResults_def loop_condition_def
        split: loop_end.splits)
  from a b c d e f show ?thesis by blast
qed

theorem depth_and_budget_limits_witness:
  "crawler_ok (toy_state 10 0 1) \<and>
   getNextURL (date_now (toy_world 1)) (urlFrontier (toy_state 10 0 1)) =
     Some (Some toy_B, dispatched 2000 (toy_state 10 0 1)) \<and>
   depth toy_B = maxDepth (config (toy_state 10 0 1)) + 1 \<and>
   crawl_step toy_lib (toy_world 1) (toy_state 10 0 1) =
     Some (Discarded toy_B, (toy_state 10 0 1)\<lparr>urlFrontier := dispatched 2000 (toy_state 10 0 1)\<rparr>) \<and>
   crawler_ok (toy_state 1 5 1) \<and>
   crawledCount (toy_state 1 5 1) \<ge> maxPages (config (toy_state 1 5 1)) \<and>
   \<not> isEmpty (urlFrontier (toy_state 1 5 1)) \<and>
   crawl_loop toy_lib toy_world 7 1 (toy_state 1 5 1) [] = Returned (toy_state 1 5 1) [] \<and>
   crawler_ok (toy_state 2 5 1) \<and> crawledCount (toy_state 2 5 1) = 1 \<and>
   (\<exists>c'. crawl_step toy_lib (toy_world 1) (toy_state 2 5 1) =
      Some (Crawled toy_B toy_page_B, c') \<and> crawledCount c' = 2 \<and>
      int (length (getAllResults (contentStorage c'))) = 2) \<and>
   toy_run 2 5 7 =
     Returned (toy_state 2 5 7) [Crawled toy_B toy_page_B, Crawled toy_A toy_page_A] \<and>
   maxPages (toy_config 2 5) = 2 \<and>
   \<not> isEmpty (urlFrontier (toy_state 2 5 7)) \<and>
   length (getAllResults (contentStorage (toy_state 2 5 7))) =
     length (filter stored [Crawled toy_B toy_page_B, Crawled toy_A toy_page_A]) \<and>
   int (length (getAllResults (contentStorage (toy_state 2 5 7)))) \<le> max 0 (maxPages (toy_config 2 5))"
proof -
  have g: "getNextURL (date_now (toy_world 1)) (urlFrontier (toy_state 10 0 1)) =
     Some (Some toy_B, dispatched 2000 (toy_state 10 0 1))"
    by code_simp
  have d: "depth toy_B = maxDepth (config (toy_state 10 0 1)) + 1" by code_simp
  have p: "crawledCount (toy_state 1 5 1) \<ge> maxPages (config (toy_state 1 5 1))" by code_simp
  have e: "\<not> isEmpty (urlFrontier (toy_state 1 5 1))" by code_simp
  from depth_and_budget_limits [OF toy_state_ok [of 10 0 1], where w = "toy_world 1"
      and lib = toy_lib] g d
  have 1: "crawl_step toy_lib (toy_world 1) (toy_state 10 0 1) =
     Some (Discarded toy_B, (toy_state 10 0 1)\<lparr>urlFrontier := dispatched 2000 (toy_state 10 0 1)\<rparr>)"
    by blast
  from depth_and_budget_limits [OF toy_state_ok [of 1 5 1], where lib = toy_lib and ws = toy_world
      and n = 7 and i = 1 and tr = "[]", THEN conjunct2, THEN conjunct2, THEN conjunct2,
      THEN conjunct1, THEN mp, OF p]
  have 2: "crawl_loop toy_lib toy_world 7 1 (toy_state 1 5 1) [] = Returned (toy_state 1 5 1) []" .
  have k: "crawledCount (toy_state 2 5 1) = 1" by code_simp
  have o: "map_option fst (crawl_step toy_lib (toy_world 1) (toy_state 2 5 1)) =
      Some (Crawled toy_B toy_page_B)"
    by code_simp
  from crawl_step_ok [OF toy_state_ok, of toy_lib "toy_world 1" 2 5 1] obtain out c' where
    s: "crawl_step toy_lib (toy_world 1) (toy_state 2 5 1) = Some (out, c')" by blast
  with o have out: "out = Crawled toy_B toy_page_B" by simp
  note th = depth_and_budget_limits [OF toy_state_ok [of 2 5 1], where w = "toy_world 1"
      and lib = toy_lib and ws = toy_world and seed_stamp = "\<lambda>i. 0" and fuel = 7
      and seedUrls = "[''http://a/'']" and cfg = "toy_config 2 5"]
  note th3 = th [THEN conjunct2, THEN conjunct2, THEN conjunct1]
  note th5 = th [THEN conjunct2, THEN conjunct2, THEN conjunct2, THEN conjunct2, THEN conjunct1,
      rule_format, OF s]
  from th5 th3 k out have cnt: "crawledCount c' = 2 \<and> int (length (getAllResults (contentStorage c'))) = 2"
    by simp
  with s out have 3: "\<exists>c'. crawl_step toy_lib (toy_world 1) (toy_state 2 5 1) =
      Some (Crawled toy_B toy_page_B, c') \<and> crawledCount c' = 2 \<and>
      int (length (getAllResults (contentStorage c'))) = 2"
    by blast
  have r: "toy_run 2 5 7 =
     Returned (toy_state 2 5 7) [Crawled toy_B toy_page_B, Crawled toy_A toy_page_A]"
    by code_simp
  have m: "maxPages (toy_config 2 5) = 2" by code_simp
  have ne: "\<not> isEmpty (urlFrontier (toy_state 2 5 7))" by code_simp
  note th6 = th [THEN conjunct2, THEN conjunct2, THEN conjunct2, THEN conjunct2, THEN conjunct2,
      folded toy_run_def, unfolded r loop_end.case]
  note 4 = th6 [THEN conjunct1]
  note 5 = th6 [THEN conjunct2, THEN conjunct1]
  from toy_state_ok [of 10 0 1] g d 1 toy_state_ok [of 1 5 1] p e 2 toy_state_ok [of 2 5 1] k 3 r m ne 4 5
  show ?thesis by (intro conjI)
qed

subsection \<open>Links of a stored page\<close>

lemma accepted_links_urls:
  "snd ` set (accepted_links lib flt us i ls) =
     {l \<in> set ls. isValidURL lib flt l \<and> \<not> isURLSeen l us}"
proof -
  have "snd ` set (enumerate i ls) = set ls"
    by (metis list.set_map map_snd_enumerate)
  then show ?thesis
    unfolding accepted_links_def by force
qed

lemma child_of_fields:
  "url (child_of lib w u il) = snd il \<and>
   priority (child_of lib w u il) = max 0 (priority u - 1) \<and>
   depth (child_of lib w u il) = depth u + 1"
  by (simp add: child_of_def)

text \<open>
  C7.  In a crawler satisfying the invariant, when the dispatched URL is downloaded and its
  content is new, the iteration stores the page, and the URLs it adds to the frontier are
  exactly the extracted links that pass the filter and are not in the visited set (which
  by then holds the page's own URL): one PendingURL per occurrence of such a link, with
  priority \<open>max 0 (priority - 1)\<close> and depth \<open>depth + 1\<close> of the page's PendingURL.
\<close>

theorem links_enqueued:
  assumes "crawler_ok c"
    and "getNextURL (date_now w) (urlFrontier c) = Some (Some u, f1)"
    and "\<not> isURLSeen (url u) (urlStorage c)" and "\<not> depth u > maxDepth (config c)"
    and "download lib w (url u) (respectRobots (config c)) = Inr res"
    and "\<not> isContentSeen (hash res) (contentStorage c)"
  shows "\<exists>c'. crawl_step lib w c =
        Some (Crawled u (res\<lparr>links := parseHTML lib (content res) (url u)\<rparr>), c') \<and>
     urlStorage c' = markAsVisited (url u) (urlStorage c) \<and>
     mset (queued (urlFrontier c')) =
       mset (queued f1) +
       mset (map (child_of lib w u)
         (accepted_links lib (urlFilter c) (urlStorage c') 0
           (parseHTML lib (content res) (url u)))) \<and>
     url ` set_mset (mset (queued (urlFrontier c')) - mset (queued f1)) =
       {l \<in> set (parseHTML lib (content res) (url u)).
          isValidURL lib (urlFilter c) l \<and> \<not> isURLSeen l (urlStorage c')} \<and>
     (\<forall>x \<in># mset (queued (urlFrontier c')) - mset (queued f1).
        priority x = max 0 (priority u - 1) \<and> depth x = depth u + 1)"
proof -
  let ?L = "parseHTML lib (content res) (url u)"
  let ?us = "markAsVisited (url u) (urlStorage c)"
  let ?acc = "accepted_links lib (urlFilter c) ?us 0 ?L"
  from assms(1) show ?thesis
  proof (cases rule: crawl_step_cases [where w = w and lib = lib])
    case (NotReady f1')
    with assms(2) show ?thesis by simp
  next
    case (Discarded u' f1')
    with assms(2,3,4) show ?thesis by simp
  next
    case (Failed u' f1' e)
    with assms(2,5) show ?thesis by simp
  next
    case (Duplicate u' f1' res')
    with assms(2,5,6) show ?thesis by simp
  next
    case (Crawled u' f1' res' f2)
    with assms(2,5) have eq: "u' = u" "f1' = f1" "res' = res" by simp_all
    from Crawled(7) eq have m: "mset (queued f2) = mset (queued f1) + mset (map (child_of lib w u) ?acc)"
      by simp
    then have diff: "mset (queued f2) - mset (queued f1) = mset (map (child_of lib w u) ?acc)"
      by simp
    have "url ` set (map (child_of lib w u) ?acc) = snd ` set ?acc"
      by (force simp: child_of_def)
    then have urls: "url ` set_mset (mset (queued f2) - mset (queued f1)) =
        {l \<in> set ?L. isValidURL lib (urlFilter c) l \<and> \<not> isURLSeen l ?us}"
      unfolding diff by (simp add: accepted_links_urls)
    have flds: "\<forall>x \<in># mset (queued f2) - mset (queued f1).
        priority x = max 0 (priority u - 1) \<and> depth x = depth u + 1"
      unfolding diff by (auto simp: child_of_def)
    from Crawled(8) eq m urls flds show ?thesis by simp
  qed
qed

theorem links_enqueued_witness:
  "crawler_ok (toy_state 10 5 0) \<and>
   getNextURL (date_now (toy_world 0)) (urlFrontier (toy_state 10 5 0)) =
     Some (Some toy_A, dispatched 1000 (toy_state 10 5 0)) \<and>
   \<not> isURLSeen (url toy_A) (urlStorage (toy_state 10 5 0)) \<and>
   \<not> depth toy_A > maxDepth (config (toy_state 10 5 0)) \<and>
   download toy_lib (toy_world 0) (url toy_A) (respectRobots (config (toy_state 10 5 0))) =
     Inr (toy_page_A\<lparr>links := []\<rparr>) \<and>
   \<not> isContentSeen (hash (toy_page_A\<lparr>links := []\<rparr>)) (contentStorage (toy_state 10 5 0)) \<and>
   (\<exists>c'. crawl_step toy_lib (toy_world 0) (toy_state 10 5 0) = Some (Crawled toy_A toy_page_A, c') \<and>
      url ` set_mset (mset (queued (urlFrontier c')) - mset (queued (dispatched 1000 (toy_state 10 5 0)))) =
        {''http://a/b'', ''http://a/c'', ''http://a/d''})"
proof -
  have g: "getNextURL (date_now (toy_world 0)) (urlFrontier (toy_state 10 5 0)) =
     Some (Some toy_A, dispatched 1000 (toy_state 10 5 0))"
    by code_simp
  have s: "\<not> isURLSeen (url toy_A) (urlStorage (toy_state 10 5 0))" by code_simp
  have d: "\<not> depth toy_A > maxDepth (config (toy_state 10 5 0))" by code_simp
  have dl: "download toy_lib (toy_world 0) (url toy_A) (respectRobots (config (toy_state 10 5 0))) =
     Inr (toy_page_A\<lparr>links := []\<rparr>)"
    by code_simp
  have h: "\<not> isContentSeen (hash (toy_page_A\<lparr>links := []\<rparr>)) (contentStorage (toy_state 10 5 0))"
    by code_simp
  have r: "(toy_page_A\<lparr>links := []\<rparr>)\<lparr>links := parseHTML toy_lib (content (toy_page_A\<lparr>links := []\<rparr>)) (url toy_A)\<rparr> = toy_page_A"
    by code_simp
  have fl: "filter (\<lambda>l. isValidURL toy_lib (urlFilter (toy_state 10 5 0)) l \<and>
        \<not> isURLSeen l (markAsVisited (url toy_A) (urlStorage (toy_state 10 5 0))))
      (parseHTML toy_lib (content (toy_page_A\<lparr>links := []\<rparr>)) (url toy_A)) =
      [''http://a/b'', ''http://a/b'', ''http://a/c'', ''http://a/d'']"
    by code_simp
  have links: "{l \<in> set (parseHTML toy_lib (content (toy_page_A\<lparr>links := []\<rparr>)) (url toy_A)).
      isValidURL toy_lib (urlFilter (toy_state 10 5 0)) l \<and>
      \<not> isURLSeen l (markAsVisited (url toy_A) (urlStorage (toy_state 10 5 0)))} =
      {''http://a/b'', ''http://a/c'', ''http://a/d''}"
    unfolding set_filter [symmetric] fl by simp
  let ?c = "toy_state 10 5 0"
  let ?res = "toy_page_A\<lparr>links := []\<rparr>"
  from links_enqueued [OF toy_state_ok g s d dl h] obtain c' where
    c: "crawl_step toy_lib (toy_world 0) ?c =
        Some (Crawled toy_A (?res\<lparr>links := parseHTML toy_lib (content ?res) (url toy_A)\<rparr>), c') \<and>
     urlStorage c' = markAsVisited (url toy_A) (urlStorage ?c) \<and>
     mset (queued (urlFrontier c')) =
       mset (queued (dispatched 1000 ?c)) +
       mset (map (child_of toy_lib (toy_world 0) toy_A)
         (accepted_links toy_lib (urlFilter ?c) (urlStorage c') 0
           (parseHTML toy_lib (content ?res) (url toy_A)))) \<and>
     url ` set_mset (mset (queued (urlFrontier c')) - mset (queued (dispatched 1000 ?c))) =
       {l \<in> set (parseHTML toy_lib (content ?res) (url toy_A)).
          isValidURL toy_lib (urlFilter ?c) l \<and> \<not> isURLSeen l (urlStorage c')} \<and>
     (\<forall>x \<in># mset (queued (urlFrontier c')) - mset (queued (dispatched 1000 ?c)).
        priority x = max 0 (priority toy_A - 1) \<and> depth x = depth toy_A + 1)" ..
  note c1 = c [THEN conjunct1]
  note c2 = c [THEN conjunct2, THEN conjunct1]
  note c4 = c [THEN conjunct2, THEN conjunct2, THEN conjunct2, THEN conjunct1]
  from c1 have 1: "crawl_step toy_lib (toy_world 0) (toy_state 10 5 0) =
      Some (Crawled toy_A toy_page_A, c')"
    unfolding r .
  from c4 have 2: "url ` set_mset (mset (queued (urlFrontier c')) -
      mset (queued (dispatched 1000 (toy_state 10 5 0)))) = {''http://a/b'', ''http://a/c'', ''http://a/d''}"
    unfolding c2 links .
  from 1 2 have "\<exists>c'. crawl_step toy_lib (toy_world 0) (toy_state 10 5 0) = Some (Crawled toy_A toy_page_A, c') \<and>
      url ` set_mset (mset (queued (urlFrontier c')) - mset (queued (dispatched 1000 (toy_state 10 5 0)))) =
        {''http://a/b'', ''http://a/c'', ''http://a/d''}"
    by (intro exI conjI)
  with toy_state_ok g s d dl h show ?thesis by (intro conjI)
qed

subsection \<open>Duplicate content\<close>






subsection \<open>Termination of the crawl loop\<close>














subsection \<open>Download failures\<close>









end
